theory Spec2Isabelle
  imports Complex_Main
begin

section \<open>Numbers, tiers and errors\<close>

text \<open>
  The planner computes with Python floats and unbounded integers. Floats are modelled
  as exact reals (\<^typ>\<open>real\<close>): \<open>math.log(x, 4)\<close> is \<^term>\<open>log 4 x\<close>, \<open>math.ceil\<close> and
  \<open>math.floor\<close> are \<^term>\<open>ceiling\<close> and \<^term>\<open>floor\<close>, \<open>a / b\<close> is real division (with the
  \<open>ZeroDivisionError\<close> of Python written out where a divisor can be zero). Rounding
  error, overflow, infinities and NaN are outside this model. Integers are \<^typ>\<open>int\<close>.

  A tier is the string the code passes around; \<open>VOLTAGE_BY_TIER\<close> is the dictionary
  of \<open>src/core/oc.py\<close> (the same table stands in \<open>nomi_calc.py\<close>).
\<close>

datatype error =
    KeyError string
  | ZeroDivisionError
  | ValidationError string
  | CycleDetected "string list"
  | NoOutputs string
  | UnknownTier string
  | VoltageExceeded real int
  | DoesNotOutput string string
  | CycleWhileResolving string

definition TICK_S :: real where
  "TICK_S = 1 / 20"

definition VOLTAGE_TABLE :: "(string \<times> int) list" where
  "VOLTAGE_TABLE =
     [(''ULV'', 8), (''LV'', 32), (''MV'', 128), (''HV'', 512), (''EV'', 2048),
      (''IV'', 8192), (''LuV'', 32768), (''ZPM'', 131072), (''UV'', 524288),
      (''UHV'', 2097152), (''UEV'', 8388608)]"

definition VOLTAGE_BY_TIER :: "string \<rightharpoonup> int" where
  "VOLTAGE_BY_TIER = map_of VOLTAGE_TABLE"

text \<open>
  \<open>int(math.floor(math.log(x, 4)))\<close>. The code equation below computes it for
  \<open>x > 0\<close> by repeated division, so that the calculators can be run on concrete inputs.
\<close>

definition floor_log4 :: "real \<Rightarrow> int" where
  "floor_log4 x = \<lfloor>log 4 x\<rfloor>"

lemma floor_log4_eq:
  fixes x :: real
  assumes "4 ^ k \<le> x" and "x < 4 ^ (k + 1)"
  shows "\<lfloor>log 4 x\<rfloor> = int k"
proof -
  have x0: "0 < x"
    using assms(1) by (meson less_le_trans zero_less_numeral zero_less_power)
  have p1: "(4::real) powr (of_int (int k)) = 4 ^ k"
    using powr_realpow [of 4 k] by simp
  have p2: "(4::real) powr (of_int (int k + 1)) = 4 ^ (k + 1)"
    using powr_realpow [of 4 "k + 1"] by (simp add: add.commute)
  show ?thesis
    using floor_log_eq_powr_iff [of x 4 "int k"] x0 assms p1 p2 by simp
qed

lemma floor_log4_code [code]:
  "floor_log4 x =
     (if 1 \<le> x then (if x < 4 then 0 else floor_log4 (x / 4) + 1)
      else if 0 < x then floor_log4 (x * 4) - 1
      else Code.abort (STR ''log of a non-positive number'') (\<lambda>_. floor_log4 x))"
proof -
  have a: "floor_log4 x = 0" if "1 \<le> x" "x < 4"
    unfolding floor_log4_def using floor_log4_eq [of 0 x] that by simp
  have b: "floor_log4 x = floor_log4 (x / 4) + 1" if "4 \<le> x"
  proof -
    have "log 4 (x / 4) = log 4 x - 1" using that by (simp add: log_divide)
    then show ?thesis by (simp add: floor_log4_def)
  qed
  have c: "floor_log4 x = floor_log4 (x * 4) - 1" if "0 < x"
  proof -
    have "log 4 (x * 4) = log 4 x + 1" using that by (simp add: log_mult)
    then show ?thesis by (simp add: floor_log4_def)
  qed
  show ?thesis using a b c by (cases "1 \<le> x"; cases "x < 4"; cases "0 < x") auto
qed

section \<open>The overclock calculator of \<open>src/core/oc.py\<close>\<close>

record OCResult =
  oc_overclocks :: int
  oc_ticks :: int
  oc_seconds :: real
  oc_eut :: real

text \<open>
  \<open>compute_overclock(base_time_s, base_eut, tier)\<close>. The dictionary read
  \<open>VOLTAGE_BY_TIER[tier]\<close> raises \<open>KeyError\<close> on a tier that is not in the table.
\<close>

definition compute_overclock :: "real \<Rightarrow> real \<Rightarrow> string \<Rightarrow> error + OCResult" where
  "compute_overclock base_time_s base_eut tier =
     (case VOLTAGE_BY_TIER tier of
        None \<Rightarrow> Inl (KeyError tier)
      | Some mv \<Rightarrow>
          if base_eut \<le> 0 then
            Inr \<lparr>oc_overclocks = 0,
                 oc_ticks = max 1 \<lceil>base_time_s / TICK_S\<rceil>,
                 oc_seconds = max TICK_S base_time_s,
                 oc_eut = 0\<rparr>
          else if base_eut > of_int mv then
            (let ticks = max 1 \<lceil>base_time_s / TICK_S\<rceil>
             in Inr \<lparr>oc_overclocks = 0, oc_ticks = ticks,
                     oc_seconds = of_int ticks * TICK_S, oc_eut = base_eut\<rparr>)
          else
            (let n0 = floor_log4 (max (of_int mv / base_eut) 1);
                 n = max 0 n0;
                 factor = (if base_eut \<le> 16 then (2::real) else 28 / 10);
                 base_ticks = max 1 \<lceil>base_time_s / TICK_S\<rceil>;
                 ticks_f = of_int base_ticks / (if n > 0 then factor ^ nat n else 1);
                 ticks = max 1 \<lceil>ticks_f\<rceil>;
                 eut = base_eut * 4 ^ nat n
             in Inr \<lparr>oc_overclocks = n, oc_ticks = ticks,
                     oc_seconds = of_int ticks * TICK_S, oc_eut = eut\<rparr>))"

section \<open>The data model of \<open>src/core/models.py\<close>\<close>

text \<open>
  Python dictionaries keep their insertion order and the planner reads it (the first
  output of a recipe, the order of its inputs), so a dictionary is an association list,
  read with \<^const>\<open>map_of\<close>.
\<close>

record Recipe =
  r_id :: string
  r_machine :: string
  r_time_s :: real
  r_inputs :: "(string \<times> real) list"
  r_outputs :: "(string \<times> real) list"
  r_base_eut :: "real option"
  r_base_voltage :: "string option"
  r_gt_recipe :: bool

record RecipeBook =
  recipes :: "Recipe list"
  active_by_output :: "(string \<times> string) list"

datatype PlanNode = PlanNode
  (item: string)
  (item_display: "string option")
  (item_rate_per_s: real)
  (recipe_id: string)
  (machine: string)
  (machine_tier: string)
  (machines_needed: int)
  (per_machine_ops_per_s: real)
  (effective_time_s: real)
  (effective_eut: real)
  (overclocks: int)
  (inputs: "(string \<times> real) list")
  (children: "PlanNode list")

definition Tier_literals :: "string list" where
  "Tier_literals = [''ULV'', ''LV'', ''MV'', ''HV'', ''EV'', ''IV'', ''LuV'', ''ZPM'', ''UV'',
                    ''UHV'', ''UEV'']"

text \<open>
  \<open>PlanNode\<close> is a pydantic model whose field \<open>machine_tier\<close> has the type
  \<open>Literal["ULV", ..., "UEV"]\<close>: constructing a node validates the tier and raises a
  \<open>ValidationError\<close> for any other string.
\<close>

definition PlanNode_init ::
  "string \<Rightarrow> string option \<Rightarrow> real \<Rightarrow> string \<Rightarrow> string \<Rightarrow> string \<Rightarrow> int \<Rightarrow> real \<Rightarrow> real \<Rightarrow> real
   \<Rightarrow> int \<Rightarrow> (string \<times> real) list \<Rightarrow> PlanNode list \<Rightarrow> error + PlanNode" where
  "PlanNode_init it disp rate rid m tier mn ops et eu oc ins cs =
     (if tier \<in> set Tier_literals
      then Inr (PlanNode it disp rate rid m tier mn ops et eu oc ins cs)
      else Inl (ValidationError tier))"

definition get_active_recipe :: "RecipeBook \<Rightarrow> string \<Rightarrow> Recipe option" where
  "get_active_recipe book output_item =
     (case map_of (active_by_output book) output_item of
        None \<Rightarrow> None
      | Some rid \<Rightarrow>
          if rid = [] then None
          else find (\<lambda>r. r_id r = rid) (recipes book))"

section \<open>The planner of \<open>src/core/plan.py\<close>\<close>

definition primary_output_amount :: "Recipe \<Rightarrow> string \<Rightarrow> error + real" where
  "primary_output_amount r it =
     (case map_of (r_outputs r) it of
        None \<Rightarrow>
          (case r_outputs r of
             [] \<Rightarrow> Inl (NoOutputs (r_id r))
           | (k, v) # rest \<Rightarrow> Inr v)
      | Some amt \<Rightarrow> Inr amt)"

definition tier_for_node ::
  "Recipe \<Rightarrow> string \<Rightarrow> (string \<rightharpoonup> string) option \<Rightarrow> string \<Rightarrow> string" where
  "tier_for_node r default_tier overrides it =
     (let tier = (case (case overrides of None \<Rightarrow> Map.empty | Some m \<Rightarrow> m) it of
                    None \<Rightarrow> default_tier
                  | Some t \<Rightarrow> t)
      in case r_base_voltage r of
           None \<Rightarrow> tier
         | Some base_v \<Rightarrow>
             (let rv = VOLTAGE_BY_TIER base_v; tv = VOLTAGE_BY_TIER tier
              in if rv \<noteq> None \<and> (tv = None \<or> the tv < the rv) then base_v else tier))"

definition unvisited :: "RecipeBook \<Rightarrow> string list \<Rightarrow> nat" where
  "unvisited book path = card (fst ` set (active_by_output book) - set path)"

lemma get_active_recipe_key:
  "get_active_recipe book it = Some r \<Longrightarrow> it \<in> fst ` set (active_by_output book)"
  by (auto simp: get_active_recipe_def split: option.splits if_splits dest!: map_of_SomeD)
     (metis fst_conv image_eqI)

lemma unvisited_extend:
  assumes "it \<notin> set path" and "get_active_recipe book it = Some r"
  shows "unvisited book (path @ [it]) < unvisited book path"
proof -
  let ?K = "fst ` set (active_by_output book)"
  have k: "it \<in> ?K" using assms(2) by (rule get_active_recipe_key)
  have "?K - set (path @ [it]) \<subset> ?K - set path"
    using k assms(1) by auto
  then show ?thesis
    unfolding unvisited_def by (intro psubset_card_mono) simp_all
qed

function solve ::
  "RecipeBook \<Rightarrow> (string \<rightharpoonup> string) \<Rightarrow> string \<Rightarrow> real \<Rightarrow> string \<Rightarrow> (string \<rightharpoonup> string) option
   \<Rightarrow> string list \<Rightarrow> error + PlanNode"
and solve_inputs ::
  "RecipeBook \<Rightarrow> (string \<rightharpoonup> string) \<Rightarrow> (string \<times> real) list \<Rightarrow> string
   \<Rightarrow> (string \<rightharpoonup> string) option \<Rightarrow> string list \<Rightarrow> error + PlanNode list"
where
  "solve book items_map it rate_per_s default_tier overrides path =
     (if it \<in> set path then Inl (CycleDetected (path @ [it]))
      else case get_active_recipe book it of
        None \<Rightarrow>
          PlanNode_init it (items_map it) rate_per_s ''<raw>'' ''RAW'' default_tier 0 0 0 0 0 [] []
      | Some r \<Rightarrow>
          (let tier = tier_for_node r default_tier overrides it
           in case primary_output_amount r it of
             Inl e \<Rightarrow> Inl e
           | Inr out_amt \<Rightarrow>
              (case (if r_base_eut r \<noteq> None \<and> r_gt_recipe r
                     then (case compute_overclock (r_time_s r) (the (r_base_eut r)) tier of
                             Inl e \<Rightarrow> Inl e
                           | Inr oc \<Rightarrow> Inr (oc_seconds oc, oc_eut oc, oc_overclocks oc))
                     else Inr (r_time_s r, 0, 0)) of
                 Inl e \<Rightarrow> Inl e
               | Inr (eff_time_s, eff_eut, ocs) \<Rightarrow>
                   (let ops_per_machine = 1 / max eff_time_s (1 / 10 ^ 12)
                    in if out_amt = 0 then Inl ZeroDivisionError
                       else
                         (let required_ops = rate_per_s / out_amt;
                              machines = \<lceil>required_ops / ops_per_machine\<rceil>;
                              inputs_rates = map (\<lambda>(in_item, in_amt). (in_item, required_ops * in_amt))
                                               (r_inputs r);
                              new_path = path @ [it]
                          in case solve_inputs book items_map inputs_rates default_tier overrides
                                    new_path of
                               Inl e \<Rightarrow> Inl e
                             | Inr cs \<Rightarrow>
                                 PlanNode_init it (items_map it) rate_per_s (r_id r) (r_machine r)
                                   tier machines ops_per_machine eff_time_s eff_eut ocs
                                   inputs_rates cs)))))"
| "solve_inputs book items_map [] default_tier overrides new_path = Inr []"
| "solve_inputs book items_map ((in_item, in_rate) # rest) default_tier overrides new_path =
     (case solve book items_map in_item in_rate default_tier overrides new_path of
        Inl e \<Rightarrow> Inl e
      | Inr child \<Rightarrow>
          (case solve_inputs book items_map rest default_tier overrides new_path of
             Inl e \<Rightarrow> Inl e
           | Inr cs \<Rightarrow> Inr (child # cs)))"
  by pat_completeness auto
termination
proof (relation "measures [
    (\<lambda>a. case a of Inl (book, items_map, it, rate, dt, ov, path) \<Rightarrow> unvisited book path
                 | Inr (book, items_map, ins, dt, ov, path) \<Rightarrow> unvisited book path),
    (\<lambda>a. case a of Inl (book, items_map, it, rate, dt, ov, path) \<Rightarrow> 0
                 | Inr (book, items_map, ins, dt, ov, path) \<Rightarrow> Suc (length ins))]",
    goal_cases)
  case 1
  then show ?case by simp
next
  case 2
  then show ?case by (simp add: unvisited_extend)
next
  case 3
  then show ?case by simp
next
  case 4
  then show ?case by simp
qed


declare solve.simps [simp del]

definition build_plan_nodes ::
  "RecipeBook \<Rightarrow> (string \<rightharpoonup> string) \<Rightarrow> string \<Rightarrow> real \<Rightarrow> string \<Rightarrow> (string \<rightharpoonup> string) option
   \<Rightarrow> error + PlanNode" where
  "build_plan_nodes book items_map target_item target_rate_per_s default_tier overrides =
     solve book items_map target_item target_rate_per_s default_tier overrides []"

subsection \<open>The summary\<close>

text \<open>
  \<open>_summary\<close> fills a \<open>defaultdict\<close> whose entries start at
  \<open>{"machines": 0.0, "eu_t": 0.0}\<close>; an entry is the pair (machines, eu_t).
\<close>

fun walk :: "PlanNode \<Rightarrow> (string \<rightharpoonup> real \<times> real) \<Rightarrow> (string \<rightharpoonup> real \<times> real)" where
  "walk (PlanNode it disp rate rid m tier mn ops et eu oc ins cs) agg =
     fold walk cs
       (if m \<noteq> ''RAW'' \<and> mn > 0 then
          (let key = m @ '' ['' @ tier @ '']'';
               v = (case agg key of None \<Rightarrow> (0, 0) | Some v \<Rightarrow> v)
           in agg(key \<mapsto> (fst v + of_int mn, snd v + of_int mn * eu)))
        else agg)"

definition summary :: "PlanNode \<Rightarrow> (string \<rightharpoonup> int \<times> real)" where
  "summary root_node = (\<lambda>k. case walk root_node Map.empty k of
                          None \<Rightarrow> None
                        | Some v \<Rightarrow> Some (\<lceil>fst v\<rceil>, snd v))"

section \<open>The single-file planner \<open>nomi_calc.py\<close>\<close>

record LRecipe =
  l_id :: string
  l_machine :: string
  l_time_s :: real
  l_inputs :: "(string \<times> real) list"
  l_outputs :: "(string \<times> real) list"
  l_base_eut :: "real option"

record LRecipeBook =
  l_recipes :: "(string \<times> LRecipe) list"
  l_active_by_output :: "(string \<times> string) list"

definition get_active_for :: "LRecipeBook \<Rightarrow> string \<Rightarrow> LRecipe option" where
  "get_active_for rb it =
     (case map_of (l_active_by_output rb) it of
        None \<Rightarrow> None
      | Some rid \<Rightarrow> if rid = [] then None else map_of (l_recipes rb) rid)"

record OverclockResult =
  lr_ticks :: int
  lr_seconds :: real
  lr_eut :: real
  lr_overclocks :: int

text \<open>\<open>OverclockingRules.__init__\<close>: the machine voltage of the tier, or an error.\<close>

definition OverclockingRules_init :: "string \<Rightarrow> error + int" where
  "OverclockingRules_init tier =
     (case VOLTAGE_BY_TIER tier of
        None \<Rightarrow> Inl (UnknownTier tier)
      | Some mv \<Rightarrow> Inr mv)"

text \<open>The \<open>while new_ticks < 1 and n > 0\<close> loop of \<open>OverclockingRules.apply\<close>.\<close>

function step_back :: "int \<Rightarrow> real \<Rightarrow> real \<Rightarrow> int \<Rightarrow> int \<Rightarrow> int \<times> int" where
  "step_back base_ticks base_eut factor new_ticks n =
     (if new_ticks < 1 \<and> n > 0 then
        (let n' = n - 1;
             ticks_f = of_int base_ticks / (if n' > 0 then factor ^ nat n' else 1);
             new_ticks' = (if base_eut \<le> 16 then max 1 \<lfloor>ticks_f\<rfloor> else max 1 \<lceil>ticks_f\<rceil>)
         in step_back base_ticks base_eut factor new_ticks' n')
      else (new_ticks, n))"
  by pat_completeness auto
termination
  by (relation "measure (\<lambda>(base_ticks, base_eut, factor, new_ticks, n). nat n)") auto

declare step_back.simps [simp del]

definition OverclockingRules_apply :: "int \<Rightarrow> int \<Rightarrow> real option \<Rightarrow> error + OverclockResult" where
  "OverclockingRules_apply machine_voltage base_ticks base_eut =
     (case base_eut of
        None \<Rightarrow>
          Inr \<lparr>lr_ticks = max base_ticks 1, lr_seconds = of_int (max base_ticks 1) * TICK_S,
               lr_eut = 0, lr_overclocks = 0\<rparr>
      | Some be \<Rightarrow>
          if be > of_int machine_voltage then Inl (VoltageExceeded be machine_voltage)
          else
            (let n0 = (if be > 0 then floor_log4 (of_int machine_voltage / be) else 0);
                 n1 = max 0 n0;
                 factor = (if be \<le> 16 then (2::real) else 28 / 10);
                 ticks_f = of_int base_ticks / (if n1 > 0 then factor ^ nat n1 else 1);
                 new_ticks = (if be \<le> 16 then max 1 \<lfloor>ticks_f\<rfloor> else max 1 \<lceil>ticks_f\<rceil>);
                 (new_ticks', n) = step_back base_ticks be factor new_ticks n1;
                 eut_eff = be * 4 ^ nat n
             in Inr \<lparr>lr_ticks = new_ticks', lr_seconds = of_int new_ticks' * TICK_S,
                     lr_eut = eut_eff, lr_overclocks = n\<rparr>))"

datatype LPlanNode = LPlanNode
  (l_item: string)
  (l_item_rate_per_s: real)
  (l_recipe_id: string)
  (l_node_machine: string)
  (l_machine_tier: string)
  (l_machines_needed: int)
  (l_per_machine_ops_per_s: real)
  (l_effective_time_s: real)
  (l_effective_eut: real)
  (l_overclocks: int)
  (l_node_inputs: "(string \<times> real) list")
  (l_children: "LPlanNode list")

definition choose_output_amount :: "LRecipe \<Rightarrow> string \<Rightarrow> error + real" where
  "choose_output_amount r it =
     (case map_of (l_outputs r) it of
        None \<Rightarrow> Inl (DoesNotOutput (l_id r) it)
      | Some amt \<Rightarrow> if amt = 0 then Inl (DoesNotOutput (l_id r) it) else Inr amt)"

text \<open>Python's \<open>round\<close> on a float: to the nearest integer, a tie to the even one.\<close>

definition py_round :: "real \<Rightarrow> int" where
  "py_round x =
     (let f = \<lfloor>x\<rfloor>; d = x - of_int f
      in if d < 1 / 2 then f
         else if d > 1 / 2 then f + 1
         else if even f then f else f + 1)"

text \<open>
  \<open>_solve_node\<close> mutates the set \<open>visited\<close> it is given, so the set is threaded
  through: a call returns the node and the set as the call leaves it. The recursion is
  bounded by fuel; \<open>None\<close> is running out of it.
\<close>

fun solve_node ::
  "nat \<Rightarrow> LRecipeBook \<Rightarrow> string \<Rightarrow> real \<Rightarrow> string \<Rightarrow> string set
   \<Rightarrow> (error + LPlanNode \<times> string set) option"
and solve_node_inputs ::
  "nat \<Rightarrow> LRecipeBook \<Rightarrow> (string \<times> real) list \<Rightarrow> string \<Rightarrow> string set
   \<Rightarrow> (error + LPlanNode list \<times> string set) option"
where
  "solve_node 0 rb it rate_per_s tier visited = None"
| "solve_node (Suc fuel) rb it rate_per_s tier visited =
     (if it \<in> visited then Some (Inl (CycleWhileResolving it))
      else
        (let visited1 = insert it visited
         in case get_active_for rb it of
           None \<Rightarrow>
             Some (Inr (LPlanNode it rate_per_s ''<none>'' ''<raw input>'' tier 0 0 0 0 0 [] [],
                        visited1))
         | Some r \<Rightarrow>
            (case choose_output_amount r it of
               Inl e \<Rightarrow> Some (Inl e)
             | Inr out_per_op \<Rightarrow>
                (let base_ticks = max 1 (py_round (l_time_s r / TICK_S))
                 in case (if l_base_eut r \<noteq> None
                          then (case OverclockingRules_init tier of
                                  Inl e \<Rightarrow> Inl e
                                | Inr mv \<Rightarrow>
                                   (case OverclockingRules_apply mv base_ticks (l_base_eut r) of
                                      Inl e \<Rightarrow> Inl e
                                    | Inr oc \<Rightarrow> Inr (lr_seconds oc, lr_eut oc, lr_overclocks oc)))
                          else Inr (of_int (max base_ticks 1) * TICK_S, 0, 0)) of
                   Inl e \<Rightarrow> Some (Inl e)
                 | Inr (eff_time_s, eff_eut, ocs) \<Rightarrow>
                     if eff_time_s = 0 then Some (Inl ZeroDivisionError)
                     else
                      (let ops_per_machine_per_s = 1 / eff_time_s;
                           required_ops_per_s = rate_per_s / out_per_op;
                           machines = \<lceil>required_ops_per_s / ops_per_machine_per_s\<rceil>;
                           inputs_rates = map (\<lambda>(in_item, in_amt). (in_item, required_ops_per_s * in_amt))
                                            (l_inputs r)
                       in case solve_node_inputs fuel rb inputs_rates tier visited1 of
                            None \<Rightarrow> None
                          | Some (Inl e) \<Rightarrow> Some (Inl e)
                          | Some (Inr (cs, visited2)) \<Rightarrow>
                              if it \<notin> visited2 then Some (Inl (KeyError it))
                              else Some (Inr (LPlanNode it rate_per_s (l_id r) (l_machine r) tier
                                                machines ops_per_machine_per_s eff_time_s eff_eut
                                                ocs inputs_rates cs,
                                              visited2 - {it})))))))"
| "solve_node_inputs fuel rb [] tier visited = Some (Inr ([], visited))"
| "solve_node_inputs fuel rb ((in_item, in_rate) # rest) tier visited =
     (case solve_node fuel rb in_item in_rate tier visited of
        None \<Rightarrow> None
      | Some (Inl e) \<Rightarrow> Some (Inl e)
      | Some (Inr (child, visited1)) \<Rightarrow>
          (case solve_node_inputs fuel rb rest tier visited1 of
             None \<Rightarrow> None
           | Some (Inl e) \<Rightarrow> Some (Inl e)
           | Some (Inr (cs, visited2)) \<Rightarrow> Some (Inr (child # cs, visited2))))"


section \<open>Facts about the overclock count\<close>






section \<open>Table facts\<close>

lemma VOLTAGE_BY_TIER_lower: "VOLTAGE_BY_TIER t = Some mv \<Longrightarrow> 8 \<le> mv"
  by (auto simp: VOLTAGE_BY_TIER_def VOLTAGE_TABLE_def split: if_splits)

lemma VOLTAGE_BY_TIER_literals: "t \<in> set Tier_literals \<longleftrightarrow> VOLTAGE_BY_TIER t \<noteq> None"
  by (auto simp: VOLTAGE_BY_TIER_def VOLTAGE_TABLE_def Tier_literals_def)


section \<open>Base power above the tier's capacity\<close>

lemma compute_overclock_exceeded:
  assumes "VOLTAGE_BY_TIER tier = Some mv" and "of_int mv < be"
  shows "compute_overclock t be tier =
           Inr \<lparr>oc_overclocks = 0, oc_ticks = max 1 \<lceil>t / TICK_S\<rceil>,
                oc_seconds = of_int (max 1 \<lceil>t / TICK_S\<rceil>) * TICK_S, oc_eut = be\<rparr>"
proof -
  have "8 \<le> mv" using assms(1) by (rule VOLTAGE_BY_TIER_lower)
  then have "0 < be" using assms(2) by linarith
  then show ?thesis using assms by (simp add: compute_overclock_def Let_def)
qed

lemma solve_node_exceeded:
  assumes "it \<notin> visited" "get_active_for rb it = Some r" "choose_output_amount r it = Inr out"
    "l_base_eut r = Some be" "VOLTAGE_BY_TIER tier = Some mv" "of_int mv < be"
  shows "solve_node (Suc fuel) rb it rate tier visited = Some (Inl (VoltageExceeded be mv))"
  using assms by (simp add: OverclockingRules_init_def OverclockingRules_apply_def Let_def)

text \<open>A macerator recipe that draws 64 EU/t, to be run at LV (capacity 32).\<close>

definition book_exceed :: RecipeBook where
  "book_exceed =
     \<lparr>recipes = [\<lparr>r_id = ''r1'', r_machine = ''macerator'', r_time_s = 1, r_inputs = [],
                   r_outputs = [(''dust'', 1)], r_base_eut = Some 64, r_base_voltage = None,
                   r_gt_recipe = True\<rparr>],
      active_by_output = [(''dust'', ''r1'')]\<rparr>"

definition lbook_exceed :: LRecipeBook where
  "lbook_exceed =
     \<lparr>l_recipes = [(''r1'', \<lparr>l_id = ''r1'', l_machine = ''macerator'', l_time_s = 1,
                              l_inputs = [], l_outputs = [(''dust'', 1)], l_base_eut = Some 64\<rparr>)],
      l_active_by_output = [(''dust'', ''r1'')]\<rparr>"

text \<open>
  C2, as stated, fails on \<open>src/core\<close>: with base power 64 at LV (capacity 32)
  \<open>compute_overclock\<close> returns a result (no overclock, power 64), and \<open>_solve\<close> returns
  the node.
\<close>

theorem voltage_exceeded_core_counterexample:
  "VOLTAGE_BY_TIER ''LV'' = Some 32 \<and> (of_int 32 :: real) < 64
   \<and> compute_overclock 1 64 ''LV''
       = Inr \<lparr>oc_overclocks = 0, oc_ticks = 20, oc_seconds = 1, oc_eut = 64\<rparr>
   \<and> solve book_exceed Map.empty ''dust'' 1 ''LV'' None []
       = Inr (PlanNode ''dust'' None 1 ''r1'' ''macerator'' ''LV'' 1 1 1 64 0 [] [])"
  by (simp add: solve.simps book_exceed_def get_active_recipe_def primary_output_amount_def
      tier_for_node_def compute_overclock_def VOLTAGE_BY_TIER_def VOLTAGE_TABLE_def TICK_S_def
      PlanNode_init_def Tier_literals_def Let_def)

text \<open>
  C2, amended. When the base power \<open>be\<close> exceeds the capacity \<open>mv\<close> of the tier:
  in \<open>nomi_calc.py\<close>, \<open>OverclockingRules.apply\<close> raises the error that carries the base
  power and the capacity, and \<open>_solve_node\<close> fails with it for an unvisited item whose
  active recipe has that base power; in \<open>src/core\<close>, \<open>compute_overclock\<close> does not fail:
  it returns no overclock, the base duration rounded up to whole ticks (at least one)
  and the base power unchanged.
\<close>

theorem voltage_exceeded_legacy_raises_core_returns:
  assumes "VOLTAGE_BY_TIER tier = Some mv" and "of_int mv < be"
  shows "OverclockingRules_apply mv base_ticks (Some be) = Inl (VoltageExceeded be mv)
       \<and> (it \<notin> visited \<and> get_active_for rb it = Some r \<and> choose_output_amount r it = Inr out
            \<and> l_base_eut r = Some be
          \<longrightarrow> solve_node (Suc fuel) rb it rate tier visited = Some (Inl (VoltageExceeded be mv)))
       \<and> compute_overclock t be tier =
           Inr \<lparr>oc_overclocks = 0, oc_ticks = max 1 \<lceil>t / TICK_S\<rceil>,
                oc_seconds = of_int (max 1 \<lceil>t / TICK_S\<rceil>) * TICK_S, oc_eut = be\<rparr>"
proof (intro conjI impI)
  show "OverclockingRules_apply mv base_ticks (Some be) = Inl (VoltageExceeded be mv)"
    using assms(2) by (simp add: OverclockingRules_apply_def)
next
  assume "it \<notin> visited \<and> get_active_for rb it = Some r \<and> choose_output_amount r it = Inr out
            \<and> l_base_eut r = Some be"
  then show "solve_node (Suc fuel) rb it rate tier visited = Some (Inl (VoltageExceeded be mv))"
    using assms solve_node_exceeded by blast
next
  show "compute_overclock t be tier =
           Inr \<lparr>oc_overclocks = 0, oc_ticks = max 1 \<lceil>t / TICK_S\<rceil>,
                oc_seconds = of_int (max 1 \<lceil>t / TICK_S\<rceil>) * TICK_S, oc_eut = be\<rparr>"
    using assms by (rule compute_overclock_exceeded)
qed

theorem voltage_exceeded_legacy_raises_core_returns_witness:
  "VOLTAGE_BY_TIER ''LV'' = Some 32 \<and> (of_int 32 :: real) < 64
   \<and> OverclockingRules_apply 32 20 (Some 64) = Inl (VoltageExceeded 64 32)
   \<and> solve_node (Suc 0) lbook_exceed ''dust'' 1 ''LV'' {} = Some (Inl (VoltageExceeded 64 32))
   \<and> compute_overclock 1 64 ''LV''
       = Inr \<lparr>oc_overclocks = 0, oc_ticks = 20, oc_seconds = 1, oc_eut = 64\<rparr>"
proof -
  have t: "VOLTAGE_BY_TIER ''LV'' = Some 32"
    by (simp add: VOLTAGE_BY_TIER_def VOLTAGE_TABLE_def)
  have v: "(of_int 32 :: real) < 64" by simp
  have a: "get_active_for lbook_exceed ''dust''
             = Some \<lparr>l_id = ''r1'', l_machine = ''macerator'', l_time_s = 1,
                     l_inputs = [], l_outputs = [(''dust'', 1)], l_base_eut = Some 64\<rparr>"
    by (simp add: get_active_for_def lbook_exceed_def)
  have c: "choose_output_amount \<lparr>l_id = ''r1'', l_machine = ''macerator'', l_time_s = 1,
                     l_inputs = [], l_outputs = [(''dust'', 1)], l_base_eut = Some 64\<rparr> ''dust'' = Inr 1"
    by (simp add: choose_output_amount_def)
  show ?thesis
    using t v voltage_exceeded_legacy_raises_core_returns [OF t v, of 20 "''dust''" "{}" lbook_exceed
        "\<lparr>l_id = ''r1'', l_machine = ''macerator'', l_time_s = 1,
                     l_inputs = [], l_outputs = [(''dust'', 1)], l_base_eut = Some 64\<rparr>" 1 0 1 1] a c
    by (simp add: TICK_S_def)
qed


section \<open>The duration\<close>











section \<open>The plan resolver, call by call\<close>

text \<open>All the nodes of a plan tree, the root first; a repeated subtree is listed each time.\<close>

fun nodes_of :: "PlanNode \<Rightarrow> PlanNode list" where
  "nodes_of (PlanNode it disp rate rid m tier mn ops et eu oc ins cs) =
     PlanNode it disp rate rid m tier mn ops et eu oc ins cs # concat (map nodes_of cs)"

lemma nodes_of_children: "nodes_of n = n # concat (map nodes_of (children n))"
  by (cases n) simp

lemma solve_raw:
  assumes "it \<notin> set path" and "get_active_recipe book it = None"
  shows "solve book im it rate dt ov path
           = PlanNode_init it (im it) rate ''<raw>'' ''RAW'' dt 0 0 0 0 0 [] []"
  using assms by (simp add: solve.simps)

lemma solve_cycle:
  "it \<in> set path \<Longrightarrow> solve book im it rate dt ov path = Inl (CycleDetected (path @ [it]))"
  by (simp add: solve.simps)

text \<open>
  The overclocking block of \<open>_solve\<close> on its own: the effective duration, the effective
  power and the overclock count of a recipe at a tier. \<open>solve\<close> holds this block inline;
  \<open>solve_recipe\<close> below restates \<open>solve\<close> with it.
\<close>

definition node_timing :: "Recipe \<Rightarrow> string \<Rightarrow> error + real \<times> real \<times> int" where
  "node_timing r tier =
     (if r_base_eut r \<noteq> None \<and> r_gt_recipe r
      then (case compute_overclock (r_time_s r) (the (r_base_eut r)) tier of
              Inl e \<Rightarrow> Inl e
            | Inr oc \<Rightarrow> Inr (oc_seconds oc, oc_eut oc, oc_overclocks oc))
      else Inr (r_time_s r, 0, 0))"

lemma solve_recipe:
  assumes "it \<notin> set path" and "get_active_recipe book it = Some r"
  shows "solve book im it rate dt ov path =
     (case primary_output_amount r it of
        Inl e \<Rightarrow> Inl e
      | Inr out_amt \<Rightarrow>
         (case node_timing r (tier_for_node r dt ov it) of
            Inl e \<Rightarrow> Inl e
          | Inr (eff_time_s, eff_eut, ocs) \<Rightarrow>
              if out_amt = 0 then Inl ZeroDivisionError
              else
                (case solve_inputs book im
                        (map (\<lambda>(in_item, in_amt). (in_item, rate / out_amt * in_amt)) (r_inputs r))
                        dt ov (path @ [it]) of
                   Inl e \<Rightarrow> Inl e
                 | Inr cs \<Rightarrow>
                     PlanNode_init it (im it) rate (r_id r) (r_machine r) (tier_for_node r dt ov it)
                       \<lceil>rate / out_amt / (1 / max eff_time_s (1 / 10 ^ 12))\<rceil>
                       (1 / max eff_time_s (1 / 10 ^ 12)) eff_time_s eff_eut ocs
                       (map (\<lambda>(in_item, in_amt). (in_item, rate / out_amt * in_amt)) (r_inputs r))
                       cs)))"
  using assms by (auto simp: solve.simps Let_def node_timing_def split: sum.splits prod.splits)

lemma solve_recipe_Inr:
  assumes "solve book im it rate dt ov path = Inr node" and "get_active_recipe book it = Some r"
  shows "\<exists>out_amt eff_time_s eff_eut ocs cs.
           it \<notin> set path
         \<and> primary_output_amount r it = Inr out_amt \<and> out_amt \<noteq> 0
         \<and> node_timing r (tier_for_node r dt ov it) = Inr (eff_time_s, eff_eut, ocs)
         \<and> solve_inputs book im
               (map (\<lambda>(in_item, in_amt). (in_item, rate / out_amt * in_amt)) (r_inputs r))
               dt ov (path @ [it]) = Inr cs
         \<and> tier_for_node r dt ov it \<in> set Tier_literals
         \<and> node = PlanNode it (im it) rate (r_id r) (r_machine r) (tier_for_node r dt ov it)
                     \<lceil>rate / out_amt / (1 / max eff_time_s (1 / 10 ^ 12))\<rceil>
                     (1 / max eff_time_s (1 / 10 ^ 12)) eff_time_s eff_eut ocs
                     (map (\<lambda>(in_item, in_amt). (in_item, rate / out_amt * in_amt)) (r_inputs r))
                     cs"
proof -
  have np: "it \<notin> set path"
    using assms(1) by (auto simp: solve.simps split: if_splits)
  show ?thesis
    using assms(1) unfolding solve_recipe [OF np assms(2)]
    by (auto simp: np PlanNode_init_def split: sum.splits prod.splits if_splits)
qed

lemma solve_raw_Inr:
  assumes "solve book im it rate dt ov path = Inr node" and "get_active_recipe book it = None"
  shows "it \<notin> set path \<and> dt \<in> set Tier_literals
       \<and> node = PlanNode it (im it) rate ''<raw>'' ''RAW'' dt 0 0 0 0 0 [] []"
  using assms by (auto simp: solve.simps PlanNode_init_def split: if_splits)

lemma solve_inputs_Inr_member:
  "solve_inputs book im ins dt ov path = Inr cs \<Longrightarrow> c \<in> set cs
   \<Longrightarrow> \<exists>i rt. (i, rt) \<in> set ins \<and> solve book im i rt dt ov path = Inr c"
proof (induction ins arbitrary: cs)
  case Nil
  then show ?case by simp
next
  case (Cons a ins)
  obtain i rt where a: "a = (i, rt)" by (cases a)
  from Cons.prems(1) obtain c0 cs0 where
    c0: "solve book im i rt dt ov path = Inr c0"
    and cs0: "solve_inputs book im ins dt ov path = Inr cs0" and cs: "cs = c0 # cs0"
    unfolding a by (auto split: sum.splits)
  show ?case
  proof (cases "c = c0")
    case True
    then show ?thesis using c0 a by auto
  next
    case False
    then have "c \<in> set cs0" using Cons.prems(2) cs by simp
    from Cons.IH [OF cs0 this] show ?thesis by auto
  qed
qed

lemma solve_subcall:
  "solve book im it rate dt ov path = Inr root_node \<Longrightarrow> n \<in> set (nodes_of root_node)
   \<Longrightarrow> \<exists>it' rate' path'. solve book im it' rate' dt ov path' = Inr n"
proof (induction root_node arbitrary: it rate path n rule: PlanNode.induct)
  case (PlanNode x1 x2 x3 x4 x5 x6 x7 x8 x9 x10 x11 x12 cs)
  let ?root = "PlanNode x1 x2 x3 x4 x5 x6 x7 x8 x9 x10 x11 x12 cs"
  show ?case
  proof (cases "n = ?root")
    case True
    then show ?thesis using PlanNode.prems(1) by blast
  next
    case False
    then obtain c where c: "c \<in> set cs" and nc: "n \<in> set (nodes_of c)"
      using PlanNode.prems(2) by auto
    show ?thesis
    proof (cases "get_active_recipe book it")
      case None
      then show ?thesis using solve_raw_Inr [OF PlanNode.prems(1) None] c by auto
    next
      case (Some r)
      from solve_recipe_Inr [OF PlanNode.prems(1) Some] obtain ins where
        "solve_inputs book im ins dt ov (path @ [it]) = Inr cs" by auto
      from solve_inputs_Inr_member [OF this c] obtain i rt where
        "solve book im i rt dt ov (path @ [it]) = Inr c" by auto
      from PlanNode.IH [OF c this nc] show ?thesis .
    qed
  qed
qed


section \<open>Every node of a plan is the result of a call\<close>

lemma solve_item: "solve book im it rate dt ov path = Inr n \<Longrightarrow> item n = it \<and> item_rate_per_s n = rate"
proof (cases "get_active_recipe book it")
  case None
  assume "solve book im it rate dt ov path = Inr n"
  from solve_raw_Inr [OF this None] show ?thesis by simp
next
  case (Some r)
  assume "solve book im it rate dt ov path = Inr n"
  from solve_recipe_Inr [OF this Some] show ?thesis by auto
qed

lemma solve_node_call:
  assumes "solve book im it rate dt ov path = Inr root_node" and "n \<in> set (nodes_of root_node)"
  shows "\<exists>path'. solve book im (item n) (item_rate_per_s n) dt ov path' = Inr n"
proof -
  from solve_subcall [OF assms] obtain it' rate' path' where
    s: "solve book im it' rate' dt ov path' = Inr n" by blast
  from solve_item [OF s] s show ?thesis by auto
qed

lemma node_timing_floor:
  assumes "node_timing r tier = Inr (t, e, k)" and "r_base_eut r \<noteq> None \<and> r_gt_recipe r"
  shows "TICK_S \<le> t"
proof -
  from assms obtain oc where oc: "compute_overclock (r_time_s r) (the (r_base_eut r)) tier = Inr oc"
    and t: "t = oc_seconds oc"
    by (auto simp: node_timing_def split: sum.splits)
  have pos: "0 < TICK_S" by (simp add: TICK_S_def)
  have k: "TICK_S \<le> of_int (max 1 z) * TICK_S" for z :: int
  proof -
    have "1 * TICK_S \<le> of_int (max 1 z) * TICK_S"
      using pos by (intro mult_right_mono) simp_all
    then show ?thesis by simp
  qed
  have k2: "TICK_S \<le> of_int \<lceil>of_int (max 1 z) / f ^ m\<rceil> * TICK_S" if "0 < f" for z :: int and f :: real and m
  proof -
    have "0 < of_int (max 1 z) / f ^ m" using that by simp
    then have "1 \<le> \<lceil>of_int (max 1 z) / f ^ m\<rceil>" by linarith
    then have "1 * TICK_S \<le> of_int \<lceil>of_int (max 1 z) / f ^ m\<rceil> * TICK_S"
      using pos by (intro mult_right_mono) simp_all
    then show ?thesis by simp
  qed
  from oc show ?thesis unfolding t
    by (auto simp: compute_overclock_def Let_def k k2 split: option.splits if_splits)
qed

lemma node_timing_plain:
  assumes "node_timing r tier = Inr (t, e, k)" and "\<not> (r_base_eut r \<noteq> None \<and> r_gt_recipe r)"
  shows "t = r_time_s r \<and> e = 0 \<and> k = 0"
  using assms by (auto simp: node_timing_def)

lemma tier_for_node_cases:
  "tier_for_node r dt ov it =
     (case (case ov of None \<Rightarrow> Map.empty | Some m \<Rightarrow> m) it of None \<Rightarrow> dt | Some t \<Rightarrow> t)
   \<or> r_base_voltage r = Some (tier_for_node r dt ov it)"
  by (auto simp: tier_for_node_def Let_def split: option.splits)


lemma solve_recipe_fields:
  assumes "solve book im it rate dt ov path = Inr node" and "get_active_recipe book it = Some r"
  shows "\<exists>out_amt. primary_output_amount r it = Inr out_amt \<and> out_amt \<noteq> 0
         \<and> node_timing r (tier_for_node r dt ov it)
             = Inr (effective_time_s node, effective_eut node, overclocks node)
         \<and> machine_tier node = tier_for_node r dt ov it
         \<and> machine_tier node \<in> set Tier_literals
         \<and> per_machine_ops_per_s node = 1 / max (effective_time_s node) (1 / 10 ^ 12)
         \<and> machines_needed node = \<lceil>rate / out_amt / per_machine_ops_per_s node\<rceil>
         \<and> item node = it \<and> item_rate_per_s node = rate
         \<and> recipe_id node = r_id r \<and> machine node = r_machine r
         \<and> inputs node = map (\<lambda>(in_item, in_amt). (in_item, rate / out_amt * in_amt)) (r_inputs r)
         \<and> solve_inputs book im (inputs node) dt ov (path @ [it]) = Inr (children node)"
proof -
  from solve_recipe_Inr [OF assms] obtain out_amt eff_time_s eff_eut ocs cs where
    h: "primary_output_amount r it = Inr out_amt" "out_amt \<noteq> 0"
       "node_timing r (tier_for_node r dt ov it) = Inr (eff_time_s, eff_eut, ocs)"
       "solve_inputs book im
               (map (\<lambda>(in_item, in_amt). (in_item, rate / out_amt * in_amt)) (r_inputs r))
               dt ov (path @ [it]) = Inr cs"
       "tier_for_node r dt ov it \<in> set Tier_literals"
    and n: "node = PlanNode it (im it) rate (r_id r) (r_machine r) (tier_for_node r dt ov it)
                     \<lceil>rate / out_amt / (1 / max eff_time_s (1 / 10 ^ 12))\<rceil>
                     (1 / max eff_time_s (1 / 10 ^ 12)) eff_time_s eff_eut ocs
                     (map (\<lambda>(in_item, in_amt). (in_item, rate / out_amt * in_amt)) (r_inputs r))
                     cs"
    by blast
  show ?thesis
    apply (rule exI [of _ out_amt])
    unfolding n PlanNode.sel
    using h by simp
qed

lemma solve_raw_fields:
  assumes "solve book im it rate dt ov path = Inr node" and "get_active_recipe book it = None"
  shows "item node = it \<and> item_rate_per_s node = rate \<and> recipe_id node = ''<raw>''
       \<and> machine node = ''RAW'' \<and> machine_tier node = dt \<and> machines_needed node = 0
       \<and> per_machine_ops_per_s node = 0 \<and> effective_time_s node = 0 \<and> effective_eut node = 0
       \<and> overclocks node = 0 \<and> inputs node = [] \<and> children node = []"
  using solve_raw_Inr [OF assms] by simp


section \<open>The tier of a node\<close>

text \<open>
  The tier a node starts from, in the specification's words: the per-item override if
  there is one, else the default tier.
\<close>

definition start_tier :: "string \<Rightarrow> (string \<rightharpoonup> string) option \<Rightarrow> string \<Rightarrow> string" where
  "start_tier default_tier overrides it =
     (case overrides of
        None \<Rightarrow> default_tier
      | Some m \<Rightarrow> (case m it of None \<Rightarrow> default_tier | Some t \<Rightarrow> t))"

lemma tier_for_node_start:
  "tier_for_node r dt ov it =
     (case r_base_voltage r of
        None \<Rightarrow> start_tier dt ov it
      | Some b \<Rightarrow>
          if VOLTAGE_BY_TIER b \<noteq> None
             \<and> (VOLTAGE_BY_TIER (start_tier dt ov it) = None
                \<or> the (VOLTAGE_BY_TIER (start_tier dt ov it)) < the (VOLTAGE_BY_TIER b))
          then b else start_tier dt ov it)"
  by (auto simp: tier_for_node_def start_tier_def Let_def split: option.splits)

lemma tier_for_node_props:
  "(r_base_voltage r = None \<longrightarrow> tier_for_node r dt ov it = start_tier dt ov it)
   \<and> (tier_for_node r dt ov it = start_tier dt ov it
        \<or> r_base_voltage r = Some (tier_for_node r dt ov it))
   \<and> (\<forall>tv. VOLTAGE_BY_TIER (start_tier dt ov it) = Some tv
          \<longrightarrow> (\<exists>tv'. VOLTAGE_BY_TIER (tier_for_node r dt ov it) = Some tv' \<and> tv \<le> tv'))
   \<and> (\<forall>b rv. r_base_voltage r = Some b \<and> VOLTAGE_BY_TIER b = Some rv
          \<longrightarrow> (\<exists>tv'. VOLTAGE_BY_TIER (tier_for_node r dt ov it) = Some tv' \<and> rv \<le> tv'))
   \<and> (tier_for_node r dt ov it \<noteq> start_tier dt ov it
          \<longrightarrow> (\<forall>tv rv. VOLTAGE_BY_TIER (start_tier dt ov it) = Some tv
                    \<and> VOLTAGE_BY_TIER (tier_for_node r dt ov it) = Some rv \<longrightarrow> tv < rv))"
  unfolding tier_for_node_start
  by (auto split: option.splits)


section \<open>Example catalogs\<close>

text \<open>
  The two-level catalog of the specification (x needs 2 y per operation, 5 s, no base
  power; y is raw), a chip recipe with base power 32 and minimum voltage ZPM, and a
  press recipe whose duration is below the guard of \<open>1e-12\<close> seconds.
\<close>

definition recipe_x :: Recipe where
  "recipe_x = \<lparr>r_id = ''rx'', r_machine = ''assembler'', r_time_s = 5, r_inputs = [(''y'', 2)],
                r_outputs = [(''x'', 1)], r_base_eut = None, r_base_voltage = None,
                r_gt_recipe = True\<rparr>"

definition book_xy :: RecipeBook where
  "book_xy = \<lparr>recipes = [recipe_x], active_by_output = [(''x'', ''rx'')]\<rparr>"

definition node_y :: PlanNode where
  "node_y = PlanNode ''y'' None 6 ''<raw>'' ''RAW'' ''LV'' 0 0 0 0 0 [] []"

definition plan_xy :: PlanNode where
  "plan_xy = PlanNode ''x'' None 3 ''rx'' ''assembler'' ''LV'' 15 (1 / 5) 5 0 0 [(''y'', 6)] [node_y]"

lemma active_x: "get_active_recipe book_xy ''x'' = Some recipe_x"
  by (simp add: get_active_recipe_def book_xy_def recipe_x_def)

lemma active_y: "get_active_recipe book_xy ''y'' = None"
  by (simp add: get_active_recipe_def book_xy_def)

lemma LV_literal: "''LV'' \<in> set Tier_literals"
  by (simp add: Tier_literals_def)

lemma solve_y: "solve book_xy Map.empty ''y'' 6 ''LV'' ov [''x''] = Inr node_y"
  by (simp add: solve_raw active_y PlanNode_init_def LV_literal node_y_def)

lemma solve_xy: "solve book_xy Map.empty ''x'' 3 ''LV'' None [] = Inr plan_xy"
proof -
  have p: "primary_output_amount recipe_x ''x'' = Inr 1"
    by (simp add: primary_output_amount_def recipe_x_def)
  have t: "tier_for_node recipe_x ''LV'' None ''x'' = ''LV''"
    by (simp add: tier_for_node_def recipe_x_def)
  have nt: "node_timing recipe_x ''LV'' = Inr (5, 0, 0)"
    by (simp add: node_timing_def recipe_x_def)
  have i: "r_inputs recipe_x = [(''y'', 2)]" "r_id recipe_x = ''rx''" "r_machine recipe_x = ''assembler''"
    by (simp_all add: recipe_x_def)
  have m: "max (5::real) (1 / 10 ^ 12) = 5" by simp
  show ?thesis
    by (simp add: solve_recipe [OF _ active_x] p t nt i solve_y m PlanNode_init_def LV_literal
          plan_xy_def)
qed

definition recipe_chip :: Recipe where
  "recipe_chip = \<lparr>r_id = ''rc'', r_machine = ''assembler'', r_time_s = 1, r_inputs = [],
                   r_outputs = [(''chip'', 1)], r_base_eut = Some 32, r_base_voltage = Some ''ZPM'',
                   r_gt_recipe = True\<rparr>"

definition book_chip :: RecipeBook where
  "book_chip = \<lparr>recipes = [recipe_chip], active_by_output = [(''chip'', ''rc'')]\<rparr>"

definition plan_chip :: PlanNode where
  "plan_chip = PlanNode ''chip'' None 1 ''rc'' ''assembler'' ''UV'' 1 20 (1 / 20) 524288 7 [] []"

lemma active_chip: "get_active_recipe book_chip ''chip'' = Some recipe_chip"
  by (simp add: get_active_recipe_def book_chip_def recipe_chip_def)

lemma tier_chip: "tier_for_node recipe_chip ''LV'' (Some [''chip'' \<mapsto> ''UV'']) ''chip'' = ''UV''"
  by (simp add: tier_for_node_def recipe_chip_def VOLTAGE_BY_TIER_def VOLTAGE_TABLE_def)

lemma overclock_chip:
  "compute_overclock 1 32 ''UV''
     = Inr \<lparr>oc_overclocks = 7, oc_ticks = 1, oc_seconds = 1 / 20, oc_eut = 524288\<rparr>"
proof -
  have l: "floor_log4 16384 = 7"
    unfolding floor_log4_def using floor_log4_eq [of 7 16384] by simp
  have pw: "(14 / 5 :: real) ^ 7 = 105413504 / 78125"
    by (simp add: power_divide)
  have c: "\<lceil>20 / (14 / 5 :: real) ^ 7\<rceil> = 1"
    unfolding pw by (rule ceiling_unique) simp_all
  show ?thesis
    by (simp add: compute_overclock_def VOLTAGE_BY_TIER_def VOLTAGE_TABLE_def Let_def TICK_S_def l c)
qed

lemma solve_chip:
  "solve book_chip Map.empty ''chip'' 1 ''LV'' (Some [''chip'' \<mapsto> ''UV'']) [] = Inr plan_chip"
proof -
  have p: "primary_output_amount recipe_chip ''chip'' = Inr 1"
    by (simp add: primary_output_amount_def recipe_chip_def)
  have nt: "node_timing recipe_chip ''UV'' = Inr (1 / 20, 524288, 7)"
    by (simp add: node_timing_def recipe_chip_def overclock_chip)
  have i: "r_inputs recipe_chip = []" "r_id recipe_chip = ''rc''" "r_machine recipe_chip = ''assembler''"
    by (simp_all add: recipe_chip_def)
  have m: "max (1 / 20 :: real) (1 / 10 ^ 12) = 1 / 20" by simp
  have c: "\<lceil>1 / 20 :: real\<rceil> = 1" by (rule ceiling_unique) simp_all
  show ?thesis
    by (simp add: solve_recipe [OF _ active_chip] p tier_chip nt i m c PlanNode_init_def
          Tier_literals_def plan_chip_def)
qed

definition recipe_tiny :: Recipe where
  "recipe_tiny = \<lparr>r_id = ''rp'', r_machine = ''press'', r_time_s = 1 / 10 ^ 13, r_inputs = [],
                   r_outputs = [(''p'', 1)], r_base_eut = None, r_base_voltage = None,
                   r_gt_recipe = True\<rparr>"

definition book_tiny :: RecipeBook where
  "book_tiny = \<lparr>recipes = [recipe_tiny], active_by_output = [(''p'', ''rp'')]\<rparr>"

lemma active_tiny: "get_active_recipe book_tiny ''p'' = Some recipe_tiny"
  by (simp add: get_active_recipe_def book_tiny_def recipe_tiny_def)

lemma solve_tiny:
  "solve book_tiny Map.empty ''p'' 1500000000000 ''LV'' None []
     = Inr (PlanNode ''p'' None 1500000000000 ''rp'' ''press'' ''LV'' 2 1000000000000
              (1 / 10000000000000) 0 0 [] [])"
proof -
  have p: "primary_output_amount recipe_tiny ''p'' = Inr 1"
    by (simp add: primary_output_amount_def recipe_tiny_def)
  have t: "tier_for_node recipe_tiny ''LV'' None ''p'' = ''LV''"
    by (simp add: tier_for_node_def recipe_tiny_def)
  have nt: "node_timing recipe_tiny ''LV'' = Inr (1 / 10000000000000, 0, 0)"
    by (simp add: node_timing_def recipe_tiny_def)
  have i: "r_inputs recipe_tiny = []" "r_id recipe_tiny = ''rp''" "r_machine recipe_tiny = ''press''"
    by (simp_all add: recipe_tiny_def)
  have m: "max (1 / 10000000000000 :: real) (1 / 10 ^ 12) = 1 / 1000000000000" by simp
  have c: "\<lceil>3 / 2 :: real\<rceil> = 2" by (rule ceiling_unique) simp_all
  show ?thesis
    by (simp add: solve_recipe [OF _ active_tiny] p t nt i m c PlanNode_init_def LV_literal)
qed


lemma plan_xy_nodes: "nodes_of plan_xy = [plan_xy, node_y]"
  by (simp add: plan_xy_def node_y_def)

lemma plan_chip_nodes: "nodes_of plan_chip = [plan_chip]"
  by (simp add: plan_chip_def)


section \<open>Machines needed\<close>





section \<open>The effective duration\<close>

text \<open>
  C6, as stated, fails: the raw-input node of the two-level plan has effective duration
  0, and the node of a recipe without overclocking carries the recipe's duration as it
  is (here \<open>1e-13\<close> s); both are below one tick.
\<close>

theorem effective_time_counterexample:
  "solve book_xy Map.empty ''x'' 3 ''LV'' None [] = Inr plan_xy
   \<and> node_y \<in> set (nodes_of plan_xy)
   \<and> effective_time_s node_y = 0
   \<and> effective_time_s node_y < 1 / 20
   \<and> solve book_tiny Map.empty ''p'' 1500000000000 ''LV'' None []
       = Inr (PlanNode ''p'' None 1500000000000 ''rp'' ''press'' ''LV'' 2 1000000000000
                (1 / 10000000000000) 0 0 [] [])
   \<and> effective_time_s (PlanNode ''p'' None 1500000000000 ''rp'' ''press'' ''LV'' 2 1000000000000
                (1 / 10000000000000) 0 0 [] []) < 1 / 20"
  by (simp add: solve_xy solve_tiny plan_xy_nodes node_y_def)

text \<open>
  C6, amended. One tick is 1/20 s. For every node of a plan tree built by \<open>_solve\<close>: a
  raw-input node has effective duration 0; a node whose recipe is overclocked (it has a
  base power and is a GT recipe) has an effective duration of at least one tick,
  whatever the overclock count; a node whose recipe is not overclocked has the recipe's
  duration unchanged.
\<close>

theorem effective_time_by_node_kind:
  assumes "solve book im it rate dt ov path = Inr root_node"
    and "n \<in> set (nodes_of root_node)"
  shows "TICK_S = 1 / 20
       \<and> (case get_active_recipe book (item n) of
            None \<Rightarrow> effective_time_s n = 0
          | Some r \<Rightarrow>
              if r_base_eut r \<noteq> None \<and> r_gt_recipe r then TICK_S \<le> effective_time_s n
              else effective_time_s n = r_time_s r)"
proof -
  from solve_node_call [OF assms(1,2)] obtain path' where
    s: "solve book im (item n) (item_rate_per_s n) dt ov path' = Inr n" by blast
  show ?thesis
  proof (cases "get_active_recipe book (item n)")
    case None
    from solve_raw_fields [OF s None] have "effective_time_s n = 0"
      by simp
    then show ?thesis using None by (simp add: TICK_S_def)
  next
    case (Some r)
    from solve_recipe_fields [OF s Some] have
      nt: "node_timing r (tier_for_node r dt ov (item n)) = Inr (effective_time_s n, effective_eut n, overclocks n)"
      by auto
    show ?thesis
      using Some node_timing_floor [OF nt] node_timing_plain [OF nt]
      by (auto simp: TICK_S_def)
  qed
qed

theorem effective_time_by_node_kind_witness:
  "solve book_chip Map.empty ''chip'' 1 ''LV'' (Some [''chip'' \<mapsto> ''UV'']) [] = Inr plan_chip
   \<and> plan_chip \<in> set (nodes_of plan_chip)
   \<and> get_active_recipe book_chip (item plan_chip) = Some recipe_chip
   \<and> r_base_eut recipe_chip = Some 32 \<and> r_gt_recipe recipe_chip
   \<and> TICK_S = 1 / 20
   \<and> TICK_S \<le> effective_time_s plan_chip"
proof -
  have m: "plan_chip \<in> set (nodes_of plan_chip)" by (simp add: plan_chip_nodes)
  have a: "get_active_recipe book_chip (item plan_chip) = Some recipe_chip"
    by (simp add: plan_chip_def active_chip)
  have b: "r_base_eut recipe_chip = Some 32" "r_gt_recipe recipe_chip"
    by (simp_all add: recipe_chip_def)
  from effective_time_by_node_kind [OF solve_chip m] a b
  show ?thesis using solve_chip m by simp
qed


lemma node_timing_explicit:
  assumes "node_timing r tier = Inr (t, e, k)"
  shows "(r_base_eut r \<noteq> None \<and> r_gt_recipe r
            \<longrightarrow> (\<exists>oc. compute_overclock (r_time_s r) (the (r_base_eut r)) tier = Inr oc
                    \<and> t = oc_seconds oc \<and> e = oc_eut oc \<and> k = oc_overclocks oc))
       \<and> (\<not> (r_base_eut r \<noteq> None \<and> r_gt_recipe r) \<longrightarrow> t = r_time_s r \<and> e = 0 \<and> k = 0)"
  using assms by (auto simp: node_timing_def split: sum.splits)

section \<open>The tier a node runs at\<close>

text \<open>
  C7. For every non-raw node \<open>n\<close> of a plan tree built by \<open>_solve\<close>, with \<open>r\<close> the active
  recipe of its item: the tier of the node is \<open>_tier_for_node\<close> of its own item; it is the
  per-item override if present, else the default tier, unless the recipe declares a
  minimum voltage, and then it is either that start tier or the declared minimum; its
  capacity is never below the capacity of the start tier and never below the capacity of
  the declared minimum (capacities of \<open>VOLTAGE_BY_TIER\<close> are compared, not names); and the
  node's duration, power and overclock count are those \<open>compute_overclock\<close> returns at
  this tier of its own when the recipe is overclocked, and the recipe's duration with
  zero power and zero overclocks otherwise.
\<close>

theorem node_tier_and_timing:
  assumes "solve book im it rate dt ov path = Inr root_node"
    and "n \<in> set (nodes_of root_node)"
    and "get_active_recipe book (item n) = Some r"
  shows "machine_tier n = tier_for_node r dt ov (item n)
       \<and> (r_base_voltage r = None \<longrightarrow> machine_tier n = start_tier dt ov (item n))
       \<and> (machine_tier n = start_tier dt ov (item n) \<or> r_base_voltage r = Some (machine_tier n))
       \<and> (\<forall>tv. VOLTAGE_BY_TIER (start_tier dt ov (item n)) = Some tv
              \<longrightarrow> (\<exists>tv'. VOLTAGE_BY_TIER (machine_tier n) = Some tv' \<and> tv \<le> tv'))
       \<and> (\<forall>b rv. r_base_voltage r = Some b \<and> VOLTAGE_BY_TIER b = Some rv
              \<longrightarrow> (\<exists>tv'. VOLTAGE_BY_TIER (machine_tier n) = Some tv' \<and> rv \<le> tv'))
       \<and> (machine_tier n \<noteq> start_tier dt ov (item n)
              \<longrightarrow> (\<forall>tv rv. VOLTAGE_BY_TIER (start_tier dt ov (item n)) = Some tv
                        \<and> VOLTAGE_BY_TIER (machine_tier n) = Some rv \<longrightarrow> tv < rv))
       \<and> (r_base_eut r \<noteq> None \<and> r_gt_recipe r
              \<longrightarrow> (\<exists>oc. compute_overclock (r_time_s r) (the (r_base_eut r)) (machine_tier n) = Inr oc
                      \<and> effective_time_s n = oc_seconds oc \<and> effective_eut n = oc_eut oc
                      \<and> overclocks n = oc_overclocks oc))
       \<and> (\<not> (r_base_eut r \<noteq> None \<and> r_gt_recipe r)
              \<longrightarrow> effective_time_s n = r_time_s r \<and> effective_eut n = 0 \<and> overclocks n = 0)"
proof -
  from solve_node_call [OF assms(1,2)] obtain path' where
    s: "solve book im (item n) (item_rate_per_s n) dt ov path' = Inr n" by blast
  from solve_recipe_fields [OF s assms(3)] have
    t: "machine_tier n = tier_for_node r dt ov (item n)"
    and nt: "node_timing r (machine_tier n) = Inr (effective_time_s n, effective_eut n, overclocks n)"
    by auto
  show ?thesis
    unfolding t
    using tier_for_node_props [of r dt ov "item n"] node_timing_explicit [OF nt [unfolded t]]
    by blast
qed

theorem node_tier_and_timing_witness:
  "solve book_chip Map.empty ''chip'' 1 ''LV'' (Some [''chip'' \<mapsto> ''UV'']) [] = Inr plan_chip
   \<and> plan_chip \<in> set (nodes_of plan_chip)
   \<and> get_active_recipe book_chip (item plan_chip) = Some recipe_chip
   \<and> start_tier ''LV'' (Some [''chip'' \<mapsto> ''UV'']) (item plan_chip) = ''UV''
   \<and> r_base_voltage recipe_chip = Some ''ZPM''
   \<and> VOLTAGE_BY_TIER ''ZPM'' = Some 131072 \<and> VOLTAGE_BY_TIER ''UV'' = Some 524288
   \<and> machine_tier plan_chip = ''UV''
   \<and> machine_tier plan_chip = tier_for_node recipe_chip ''LV'' (Some [''chip'' \<mapsto> ''UV'']) (item plan_chip)
   \<and> r_base_eut recipe_chip = Some 32 \<and> r_gt_recipe recipe_chip
   \<and> (\<exists>oc. compute_overclock (r_time_s recipe_chip) (the (r_base_eut recipe_chip))
               (machine_tier plan_chip) = Inr oc
          \<and> effective_time_s plan_chip = oc_seconds oc \<and> effective_eut plan_chip = oc_eut oc
          \<and> overclocks plan_chip = oc_overclocks oc)
   \<and> compute_overclock 1 32 ''UV''
       = Inr \<lparr>oc_overclocks = 7, oc_ticks = 1, oc_seconds = 1 / 20, oc_eut = 524288\<rparr>"
proof -
  have m: "plan_chip \<in> set (nodes_of plan_chip)" by (simp add: plan_chip_nodes)
  have a: "get_active_recipe book_chip (item plan_chip) = Some recipe_chip"
    by (simp add: plan_chip_def active_chip)
  have s: "start_tier ''LV'' (Some [''chip'' \<mapsto> ''UV'']) (item plan_chip) = ''UV''"
    by (simp add: start_tier_def plan_chip_def)
  have v: "r_base_voltage recipe_chip = Some ''ZPM''"
    "VOLTAGE_BY_TIER ''ZPM'' = Some 131072" "VOLTAGE_BY_TIER ''UV'' = Some 524288"
    by (simp_all add: recipe_chip_def VOLTAGE_BY_TIER_def VOLTAGE_TABLE_def)
  have t: "machine_tier plan_chip = ''UV''" by (simp add: plan_chip_def)
  have b: "r_base_eut recipe_chip = Some 32" "r_gt_recipe recipe_chip"
    by (simp_all add: recipe_chip_def)
  note th = node_tier_and_timing [OF solve_chip m a]
  from th have c1: "machine_tier plan_chip
          = tier_for_node recipe_chip ''LV'' (Some [''chip'' \<mapsto> ''UV'']) (item plan_chip)"
    by blast
  from th b have c2: "\<exists>oc. compute_overclock (r_time_s recipe_chip) (the (r_base_eut recipe_chip))
               (machine_tier plan_chip) = Inr oc
          \<and> effective_time_s plan_chip = oc_seconds oc \<and> effective_eut plan_chip = oc_eut oc
          \<and> overclocks plan_chip = oc_overclocks oc"
    by blast
  show ?thesis
    by (intro conjI solve_chip m a s v t c1 b c2 overclock_chip)
qed


section \<open>Raw inputs\<close>

text \<open>
  C10. For an item with no active recipe (not on the ancestor path, the default tier one
  of the tier literals), \<open>_solve\<close> returns the raw-input node whose \<open>machine_tier\<close> is
  the default tier, whatever the per-item overrides hold for this item.
\<close>

theorem raw_node_carries_default_tier:
  assumes "get_active_recipe book it = None" and "it \<notin> set path"
    and "default_tier \<in> set Tier_literals"
  shows "solve book im it rate default_tier overrides path
           = Inr (PlanNode it (im it) rate ''<raw>'' ''RAW'' default_tier 0 0 0 0 0 [] [])"
  using assms by (simp add: solve_raw PlanNode_init_def)

theorem raw_node_carries_default_tier_witness:
  "get_active_recipe book_xy ''y'' = None \<and> ''y'' \<notin> set [''x''] \<and> ''LV'' \<in> set Tier_literals
   \<and> [''y'' \<mapsto> ''HV''] ''y'' = Some ''HV''
   \<and> solve book_xy Map.empty ''y'' 6 ''LV'' (Some [''y'' \<mapsto> ''HV'']) [''x'']
       = Inr (PlanNode ''y'' None 6 ''<raw>'' ''RAW'' ''LV'' 0 0 0 0 0 [] [])"
proof -
  have p: "''y'' \<notin> set [''x'']" by simp
  from raw_node_carries_default_tier [OF active_y p LV_literal, of Map.empty 6 "Some [''y'' \<mapsto> ''HV'']"]
  show ?thesis using active_y p LV_literal by simp
qed


section \<open>An item its active recipe does not output\<close>

definition recipe_b :: Recipe where
  "recipe_b = \<lparr>r_id = ''rb'', r_machine = ''mixer'', r_time_s = 2, r_inputs = [],
                r_outputs = [(''b'', 2)], r_base_eut = None, r_base_voltage = None,
                r_gt_recipe = True\<rparr>"

definition book_sub :: RecipeBook where
  "book_sub = \<lparr>recipes = [recipe_b], active_by_output = [(''b'', ''rb''), (''a'', ''rb'')]\<rparr>"

definition lrecipe_b :: LRecipe where
  "lrecipe_b = \<lparr>l_id = ''rb'', l_machine = ''mixer'', l_time_s = 2, l_inputs = [],
                 l_outputs = [(''b'', 2)], l_base_eut = None\<rparr>"

definition lbook_sub :: LRecipeBook where
  "lbook_sub = \<lparr>l_recipes = [(''rb'', lrecipe_b)],
                 l_active_by_output = [(''b'', ''rb''), (''a'', ''rb'')]\<rparr>"

text \<open>
  C9, as stated, fails on \<open>src/core\<close>: item a is mapped to a recipe that outputs only b
  (2 per operation); \<open>_primary_output_amount\<close> falls back to the first output and
  \<open>_solve\<close> returns a node computed from the quantity 2.
\<close>

theorem missing_output_core_counterexample:
  "get_active_recipe book_sub ''a'' = Some recipe_b
   \<and> map_of (r_outputs recipe_b) ''a'' = None
   \<and> primary_output_amount recipe_b ''a'' = Inr 2
   \<and> solve book_sub Map.empty ''a'' 1 ''LV'' None []
       = Inr (PlanNode ''a'' None 1 ''rb'' ''mixer'' ''LV'' 1 (1 / 2) 2 0 0 [] [])"
  by (simp add: solve.simps book_sub_def recipe_b_def get_active_recipe_def
        primary_output_amount_def tier_for_node_def PlanNode_init_def Tier_literals_def Let_def)

lemma choose_output_amount_missing:
  "map_of (l_outputs lr) it = None \<Longrightarrow> choose_output_amount lr it = Inl (DoesNotOutput (l_id lr) it)"
  by (simp add: choose_output_amount_def)

lemma solve_node_missing:
  assumes "map_of (l_outputs lr) it = None" "it \<notin> visited" "get_active_for rb it = Some lr"
  shows "solve_node (Suc fuel) rb it rate tier visited = Some (Inl (DoesNotOutput (l_id lr) it))"
  using assms by (simp add: choose_output_amount_def)

lemma primary_output_amount_missing:
  "map_of (r_outputs r) it = None
   \<Longrightarrow> primary_output_amount r it
         = (case r_outputs r of [] \<Rightarrow> Inl (NoOutputs (r_id r)) | (k, v) # rest \<Rightarrow> Inr v)"
  by (simp add: primary_output_amount_def)

lemma solve_no_outputs:
  assumes "it \<notin> set path" "get_active_recipe book it = Some r" "r_outputs r = []"
  shows "solve book im it rate dt ov path = Inl (NoOutputs (r_id r))"
  using assms by (simp add: solve_recipe primary_output_amount_def)

text \<open>
  C9, amended. For an item that its active recipe does not list among its outputs: in
  \<open>nomi_calc.py\<close>, \<open>_choose_output_amount\<close> raises the error that carries the recipe id
  and the item, and \<open>_solve_node\<close> fails with it for an unvisited item; in
  \<open>src/core/plan.py\<close>, \<open>_primary_output_amount\<close> returns the quantity of the first
  listed output instead, and raises (an error that carries the recipe id only) just
  when the recipe lists no output at all, and then \<open>_solve\<close> fails with that error.
\<close>

theorem missing_output_legacy_raises_core_falls_back:
  assumes "map_of (l_outputs lr) it = None" and "map_of (r_outputs r) it = None"
  shows "choose_output_amount lr it = Inl (DoesNotOutput (l_id lr) it)
       \<and> (it \<notin> visited \<and> get_active_for rb it = Some lr
            \<longrightarrow> solve_node (Suc fuel) rb it rate tier visited
                  = Some (Inl (DoesNotOutput (l_id lr) it)))
       \<and> primary_output_amount r it
           = (case r_outputs r of [] \<Rightarrow> Inl (NoOutputs (r_id r)) | (k, v) # rest \<Rightarrow> Inr v)
       \<and> (it \<notin> set path \<and> get_active_recipe book it = Some r \<and> r_outputs r = []
            \<longrightarrow> solve book im it rate' dt ov path = Inl (NoOutputs (r_id r)))"
proof (intro conjI impI)
  show "choose_output_amount lr it = Inl (DoesNotOutput (l_id lr) it)"
    using assms(1) by (rule choose_output_amount_missing)
next
  assume "it \<notin> visited \<and> get_active_for rb it = Some lr"
  then show "solve_node (Suc fuel) rb it rate tier visited = Some (Inl (DoesNotOutput (l_id lr) it))"
    using solve_node_missing [OF assms(1)] by blast
next
  show "primary_output_amount r it
           = (case r_outputs r of [] \<Rightarrow> Inl (NoOutputs (r_id r)) | (k, v) # rest \<Rightarrow> Inr v)"
    using assms(2) by (rule primary_output_amount_missing)
next
  assume "it \<notin> set path \<and> get_active_recipe book it = Some r \<and> r_outputs r = []"
  then show "solve book im it rate' dt ov path = Inl (NoOutputs (r_id r))"
    using solve_no_outputs by blast
qed

theorem missing_output_legacy_raises_core_falls_back_witness:
  "map_of (l_outputs lrecipe_b) ''a'' = None \<and> map_of (r_outputs recipe_b) ''a'' = None
   \<and> get_active_for lbook_sub ''a'' = Some lrecipe_b
   \<and> choose_output_amount lrecipe_b ''a'' = Inl (DoesNotOutput ''rb'' ''a'')
   \<and> solve_node (Suc 0) lbook_sub ''a'' 1 ''LV'' {} = Some (Inl (DoesNotOutput ''rb'' ''a''))
   \<and> primary_output_amount recipe_b ''a'' = Inr 2"
proof -
  have a: "map_of (l_outputs lrecipe_b) ''a'' = None" by (simp add: lrecipe_b_def)
  have b: "map_of (r_outputs recipe_b) ''a'' = None" by (simp add: recipe_b_def)
  have c: "get_active_for lbook_sub ''a'' = Some lrecipe_b"
    by (simp add: get_active_for_def lbook_sub_def)
  have d: "l_id lrecipe_b = ''rb''" "r_outputs recipe_b = [(''b'', 2)]"
    by (simp_all add: lrecipe_b_def recipe_b_def)
  from missing_output_legacy_raises_core_falls_back [OF a b, of "{}" lbook_sub 0 1 "''LV''"] c
  have "choose_output_amount lrecipe_b ''a'' = Inl (DoesNotOutput (l_id lrecipe_b) ''a'')
      \<and> solve_node (Suc 0) lbook_sub ''a'' 1 ''LV'' {} = Some (Inl (DoesNotOutput (l_id lrecipe_b) ''a''))
      \<and> primary_output_amount recipe_b ''a''
           = (case r_outputs recipe_b of [] \<Rightarrow> Inl (NoOutputs (r_id recipe_b)) | (k, v) # rest \<Rightarrow> Inr v)"
    by blast
  then show ?thesis using a b c by (simp add: d)
qed


section \<open>An item reused by sibling branches\<close>

text \<open>
  A catalog without any cycle: x is made of a and b, and each of a and b is made of the
  raw input ore. The same catalog for \<open>nomi_calc.py\<close> and for \<open>src/core\<close>.
\<close>

definition lrecipe :: "string \<Rightarrow> string \<Rightarrow> (string \<times> real) list \<Rightarrow> string \<Rightarrow> LRecipe" where
  "lrecipe rid m ins out = \<lparr>l_id = rid, l_machine = m, l_time_s = 1, l_inputs = ins,
                              l_outputs = [(out, 1)], l_base_eut = None\<rparr>"

definition lbook_siblings :: LRecipeBook where
  "lbook_siblings =
     \<lparr>l_recipes = [(''rx'', lrecipe ''rx'' ''m1'' [(''a'', 1), (''b'', 1)] ''x''),
                   (''ra'', lrecipe ''ra'' ''m2'' [(''ore'', 1)] ''a''),
                   (''rb'', lrecipe ''rb'' ''m2'' [(''ore'', 1)] ''b'')],
      l_active_by_output = [(''x'', ''rx''), (''a'', ''ra''), (''b'', ''rb'')]\<rparr>"

lemma py_round_20: "py_round 20 = 20"
  by (simp add: py_round_def)

lemma lsib_active:
  "get_active_for lbook_siblings ''x'' = Some (lrecipe ''rx'' ''m1'' [(''a'', 1), (''b'', 1)] ''x'')"
  "get_active_for lbook_siblings ''a'' = Some (lrecipe ''ra'' ''m2'' [(''ore'', 1)] ''a'')"
  "get_active_for lbook_siblings ''b'' = Some (lrecipe ''rb'' ''m2'' [(''ore'', 1)] ''b'')"
  "get_active_for lbook_siblings ''ore'' = None"
  by (simp_all add: get_active_for_def lbook_siblings_def)

lemma lsib_ore1:
  "solve_node (Suc fuel) lbook_siblings ''ore'' 1 ''LV'' {''a'', ''x''}
     = Some (Inr (LPlanNode ''ore'' 1 ''<none>'' ''<raw input>'' ''LV'' 0 0 0 0 0 [] [],
                  {''ore'', ''a'', ''x''}))"
  by (simp add: lsib_active)

lemma lsib_a:
  "solve_node (Suc (Suc fuel)) lbook_siblings ''a'' 1 ''LV'' {''x''}
     = Some (Inr (LPlanNode ''a'' 1 ''ra'' ''m2'' ''LV'' 1 1 1 0 0 [(''ore'', 1)]
                    [LPlanNode ''ore'' 1 ''<none>'' ''<raw input>'' ''LV'' 0 0 0 0 0 [] []],
                  {''ore'', ''x''}))"
proof -
  have s: "insert ''a'' {''x''} = {''a'', ''x''}" by simp
  have d: "{''ore'', ''a'', ''x''} - {''a''} = {''ore'', ''x''}" by auto
  show ?thesis
    by (simp add: lsib_active lrecipe_def choose_output_amount_def py_round_20 TICK_S_def Let_def d
          del: solve_node.simps(2)
          add: solve_node.simps(2) [of "Suc fuel" lbook_siblings "''a''"] lsib_ore1)
qed


lemma lsib_ore2:
  "solve_node (Suc fuel) lbook_siblings ''ore'' 1 ''LV'' {''b'', ''ore'', ''x''}
     = Some (Inl (CycleWhileResolving ''ore''))"
  by simp

lemma lsib_b:
  "solve_node (Suc (Suc fuel)) lbook_siblings ''b'' 1 ''LV'' {''ore'', ''x''}
     = Some (Inl (CycleWhileResolving ''ore''))"
proof -
  have s: "insert ''b'' {''ore'', ''x''} = {''b'', ''ore'', ''x''}" by simp
  show ?thesis
    by (simp add: lsib_active lrecipe_def choose_output_amount_def py_round_20 TICK_S_def Let_def
          del: solve_node.simps(2)
          add: solve_node.simps(2) [of "Suc fuel" lbook_siblings "''b''"] lsib_ore2)
qed
definition recipe_plain :: "string \<Rightarrow> string \<Rightarrow> (string \<times> real) list \<Rightarrow> string \<Rightarrow> Recipe" where
  "recipe_plain rid m ins out = \<lparr>r_id = rid, r_machine = m, r_time_s = 1, r_inputs = ins,
       r_outputs = [(out, 1)], r_base_eut = None, r_base_voltage = None, r_gt_recipe = True\<rparr>"

definition book_siblings :: RecipeBook where
  "book_siblings =
     \<lparr>recipes = [recipe_plain ''rx'' ''m1'' [(''a'', 1), (''b'', 1)] ''x'',
                 recipe_plain ''ra'' ''m2'' [(''ore'', 1)] ''a'',
                 recipe_plain ''rb'' ''m2'' [(''ore'', 1)] ''b''],
      active_by_output = [(''x'', ''rx''), (''a'', ''ra''), (''b'', ''rb'')]\<rparr>"

definition node_ore :: PlanNode where
  "node_ore = PlanNode ''ore'' None 1 ''<raw>'' ''RAW'' ''LV'' 0 0 0 0 0 [] []"

definition plan_siblings :: PlanNode where
  "plan_siblings =
     PlanNode ''x'' None 1 ''rx'' ''m1'' ''LV'' 1 1 1 0 0 [(''a'', 1), (''b'', 1)]
       [PlanNode ''a'' None 1 ''ra'' ''m2'' ''LV'' 1 1 1 0 0 [(''ore'', 1)] [node_ore],
        PlanNode ''b'' None 1 ''rb'' ''m2'' ''LV'' 1 1 1 0 0 [(''ore'', 1)] [node_ore]]"

lemma solve_siblings:
  "solve book_siblings Map.empty ''x'' 1 ''LV'' None [] = Inr plan_siblings"
  by (simp add: solve.simps book_siblings_def recipe_plain_def get_active_recipe_def
        primary_output_amount_def tier_for_node_def PlanNode_init_def Tier_literals_def Let_def
        plan_siblings_def node_ore_def)

text \<open>
  C5. On this acyclic catalog \<open>_solve_node\<close> of \<open>nomi_calc.py\<close> raises the cycle error
  for ore, with any fuel that lets it reach the second occurrence: the raw-input branch
  returns before \<open>visited.remove(item)\<close>, so ore stays in \<open>visited\<close> after the branch of
  a and is found there by the branch of b. \<open>_solve\<close> of \<open>src/core/plan.py\<close>, which
  passes the ancestor path by value, resolves the same catalog.
\<close>

theorem sibling_raw_input_legacy_cycle_error:
  "solve_node (Suc (Suc (Suc fuel))) lbook_siblings ''x'' 1 ''LV'' {}
     = Some (Inl (CycleWhileResolving ''ore''))"
  by (simp add: lsib_active lrecipe_def choose_output_amount_def py_round_20 TICK_S_def Let_def
        del: solve_node.simps(2)
        add: solve_node.simps(2) [of "Suc (Suc fuel)" lbook_siblings "''x''"]
             lsib_a [unfolded lrecipe_def, simplified] lsib_b [unfolded lrecipe_def, simplified])

theorem sibling_raw_input_core_resolves:
  "solve book_siblings Map.empty ''x'' 1 ''LV'' None [] = Inr plan_siblings
   \<and> nodes_of plan_siblings
       = [plan_siblings,
          PlanNode ''a'' None 1 ''ra'' ''m2'' ''LV'' 1 1 1 0 0 [(''ore'', 1)] [node_ore], node_ore,
          PlanNode ''b'' None 1 ''rb'' ''m2'' ''LV'' 1 1 1 0 0 [(''ore'', 1)] [node_ore], node_ore]"
  by (simp add: solve_siblings plan_siblings_def node_ore_def)


section \<open>The summary\<close>

text \<open>What \<open>walk\<close> does at one node.\<close>

definition step :: "PlanNode \<Rightarrow> (string \<rightharpoonup> real \<times> real) \<Rightarrow> (string \<rightharpoonup> real \<times> real)" where
  "step n agg =
     (if machine n \<noteq> ''RAW'' \<and> machines_needed n > 0 then
        (let key = machine n @ '' ['' @ machine_tier n @ '']'';
             v = (case agg key of None \<Rightarrow> (0, 0) | Some v \<Rightarrow> v)
         in agg(key \<mapsto> (fst v + of_int (machines_needed n),
                         snd v + of_int (machines_needed n) * effective_eut n)))
      else agg)"

lemma walk_step:
  "walk (PlanNode it disp rate rid m tier mn ops et eu oc ins cs) agg =
     fold walk cs (step (PlanNode it disp rate rid m tier mn ops et eu oc ins cs) agg)"
  by (simp add: step_def)

lemma fold_walk_concat:
  assumes "\<And>c a. c \<in> set cs \<Longrightarrow> walk c a = fold step (nodes_of c) a"
  shows "fold walk cs agg = fold step (concat (map nodes_of cs)) agg"
  using assms by (induction cs arbitrary: agg) simp_all

lemma walk_fold_step: "walk n agg = fold step (nodes_of n) agg"
proof (induction n arbitrary: agg rule: PlanNode.induct)
  case (PlanNode it disp rate rid m tier mn ops et eu oc ins cs)
  have "fold walk cs a = fold step (concat (map nodes_of cs)) a" for a
    by (rule fold_walk_concat) (rule PlanNode.IH)
  then show ?case
    unfolding walk_step by simp
qed

text \<open>
  The nodes that count for the key \<open>k\<close>: not raw, with \<open>machines_needed > 0\<close>, and with
  \<open>k\<close> the machine name followed by the tier in brackets.
\<close>

definition counted :: "string \<Rightarrow> PlanNode \<Rightarrow> bool" where
  "counted k n \<longleftrightarrow> machine n \<noteq> ''RAW'' \<and> 0 < machines_needed n
                   \<and> machine n @ '' ['' @ machine_tier n @ '']'' = k"

lemma fold_step_key:
  "fold step ns agg k =
     (if filter (counted k) ns = [] then agg k
      else Some (fst (case agg k of None \<Rightarrow> (0, 0) | Some v \<Rightarrow> v)
                   + (\<Sum>n\<leftarrow>filter (counted k) ns. of_int (machines_needed n)),
                 snd (case agg k of None \<Rightarrow> (0, 0) | Some v \<Rightarrow> v)
                   + (\<Sum>n\<leftarrow>filter (counted k) ns. of_int (machines_needed n) * effective_eut n)))"
proof (induction ns arbitrary: agg)
  case Nil
  then show ?case by simp
next
  case (Cons n ns)
  show ?case
  proof (cases "counted k n")
    case True
    then have s: "step n agg k
        = Some (fst (case agg k of None \<Rightarrow> (0, 0) | Some v \<Rightarrow> v) + of_int (machines_needed n),
                snd (case agg k of None \<Rightarrow> (0, 0) | Some v \<Rightarrow> v)
                  + of_int (machines_needed n) * effective_eut n)"
      by (simp add: step_def counted_def Let_def)
    show ?thesis
      using True by (simp add: Cons.IH s add.assoc)
  next
    case False
    then have s: "step n agg k = agg k"
      by (auto simp: step_def counted_def Let_def)
    show ?thesis
      using False by (simp add: Cons.IH s)
  qed
qed
lemma sum_list_of_int_machines:
  "(\<Sum>n\<leftarrow>ns. real_of_int (machines_needed n)) = real_of_int (\<Sum>n\<leftarrow>ns. machines_needed n)"
  by (induction ns) simp_all

definition recipe_c :: Recipe where
  "recipe_c = \<lparr>r_id = ''rc'', r_machine = ''m3'', r_time_s = 1, r_inputs = [],
                r_outputs = [(''c'', 1)], r_base_eut = Some 32, r_base_voltage = None,
                r_gt_recipe = True\<rparr>"

definition book_diamond :: RecipeBook where
  "book_diamond =
     \<lparr>recipes = [recipe_plain ''rx'' ''m1'' [(''a'', 1), (''b'', 1)] ''x'',
                 recipe_plain ''ra'' ''m2'' [(''c'', 1)] ''a'',
                 recipe_plain ''rb'' ''m2'' [(''c'', 1)] ''b'',
                 recipe_c],
      active_by_output = [(''x'', ''rx''), (''a'', ''ra''), (''b'', ''rb''), (''c'', ''rc'')]\<rparr>"

definition node_c :: PlanNode where
  "node_c = PlanNode ''c'' None 1 ''rc'' ''m3'' ''LV'' 1 1 1 32 0 [] []"

definition plan_diamond :: PlanNode where
  "plan_diamond =
     PlanNode ''x'' None 1 ''rx'' ''m1'' ''LV'' 1 1 1 0 0 [(''a'', 1), (''b'', 1)]
       [PlanNode ''a'' None 1 ''ra'' ''m2'' ''LV'' 1 1 1 0 0 [(''c'', 1)] [node_c],
        PlanNode ''b'' None 1 ''rb'' ''m2'' ''LV'' 1 1 1 0 0 [(''c'', 1)] [node_c]]"

lemma overclock_c:
  "compute_overclock 1 32 ''LV''
     = Inr \<lparr>oc_overclocks = 0, oc_ticks = 20, oc_seconds = 1, oc_eut = 32\<rparr>"
proof -
  have l: "floor_log4 1 = 0"
    unfolding floor_log4_def by simp
  show ?thesis
    by (simp add: compute_overclock_def VOLTAGE_BY_TIER_def VOLTAGE_TABLE_def Let_def TICK_S_def l)
qed

lemma solve_diamond:
  "solve book_diamond Map.empty ''x'' 1 ''LV'' None [] = Inr plan_diamond"
  by (simp add: solve.simps book_diamond_def recipe_plain_def recipe_c_def get_active_recipe_def
        primary_output_amount_def tier_for_node_def PlanNode_init_def Tier_literals_def Let_def
        plan_diamond_def node_c_def overclock_c)

text \<open>
  C8. For every tree and every key, the summary is taken over all the nodes of the tree
  (\<open>nodes_of\<close> lists a repeated subtree each time it occurs): there is no entry when no
  node counts for the key; otherwise the instance count is the ceiling, taken once, of
  the sum of \<open>machines_needed\<close> over the nodes that count for the key, and the power is
  the sum of \<open>machines_needed * effective_eut\<close> over them. The sum of the counts is a
  whole number, so the ceiling is that sum.
\<close>

theorem summary_accumulates_every_node:
  "summary root_node k =
     (if filter (counted k) (nodes_of root_node) = [] then None
      else Some (\<lceil>\<Sum>n\<leftarrow>filter (counted k) (nodes_of root_node). real_of_int (machines_needed n)\<rceil>,
                 \<Sum>n\<leftarrow>filter (counted k) (nodes_of root_node).
                    of_int (machines_needed n) * effective_eut n))
   \<and> \<lceil>\<Sum>n\<leftarrow>filter (counted k) (nodes_of root_node). real_of_int (machines_needed n)\<rceil>
       = (\<Sum>n\<leftarrow>filter (counted k) (nodes_of root_node). machines_needed n)"
  by (simp add: summary_def walk_fold_step fold_step_key sum_list_of_int_machines)

theorem summary_accumulates_every_node_witness:
  "solve book_diamond Map.empty ''x'' 1 ''LV'' None [] = Inr plan_diamond
   \<and> summary plan_diamond ''m1 [LV]'' = Some (1, 0)
   \<and> summary plan_diamond ''m2 [LV]'' = Some (2, 0)
   \<and> summary plan_diamond ''m3 [LV]'' = Some (2, 64)
   \<and> summary plan_diamond ''RAW [LV]'' = None"
  using summary_accumulates_every_node [of plan_diamond "''m1 [LV]''"]
    summary_accumulates_every_node [of plan_diamond "''m2 [LV]''"]
    summary_accumulates_every_node [of plan_diamond "''m3 [LV]''"]
    summary_accumulates_every_node [of plan_diamond "''RAW [LV]''"]
  by (simp add: solve_diamond plan_diamond_def node_c_def counted_def)


section \<open>Cycles in \<open>src/core/plan.py\<close>\<close>

text \<open>
  \<open>consumes book a b\<close>: the active recipe of a has b among its inputs. A chain is a list
  of items in which each one consumes the next.
\<close>

definition consumes :: "RecipeBook \<Rightarrow> string \<Rightarrow> string \<Rightarrow> bool" where
  "consumes book a b =
     (case get_active_recipe book a of
        None \<Rightarrow> False
      | Some r \<Rightarrow> b \<in> fst ` set (r_inputs r))"

fun is_chain :: "RecipeBook \<Rightarrow> string list \<Rightarrow> bool" where
  "is_chain book [] = True"
| "is_chain book [a] = True"
| "is_chain book (a # b # xs) = (consumes book a b \<and> is_chain book (b # xs))"

lemma solve_inputs_covers:
  "solve_inputs book im ins dt ov path = Inr cs \<Longrightarrow> (i, rt) \<in> set ins
   \<Longrightarrow> \<exists>c\<in>set cs. solve book im i rt dt ov path = Inr c"
proof (induction ins arbitrary: cs)
  case Nil
  then show ?case by simp
next
  case (Cons a ins)
  obtain i0 rt0 where a: "a = (i0, rt0)" by (cases a)
  from Cons.prems(1) obtain c0 cs0 where
    c0: "solve book im i0 rt0 dt ov path = Inr c0"
    and cs0: "solve_inputs book im ins dt ov path = Inr cs0" and cs: "cs = c0 # cs0"
    unfolding a by (auto split: sum.splits)
  show ?case
  proof (cases "(i, rt) = (i0, rt0)")
    case True
    then show ?thesis using c0 cs by auto
  next
    case False
    then have "(i, rt) \<in> set ins" using Cons.prems(2) a by auto
    from Cons.IH [OF cs0 this] show ?thesis using cs by auto
  qed
qed

lemma solve_inputs_first_error:
  "solve_inputs book im ins dt ov path = Inl e
   \<Longrightarrow> \<exists>i rt. (i, rt) \<in> set ins \<and> solve book im i rt dt ov path = Inl e"
proof (induction ins)
  case Nil
  then show ?case by simp
next
  case (Cons a ins)
  obtain i0 rt0 where a: "a = (i0, rt0)" by (cases a)
  show ?case
  proof (cases "solve book im i0 rt0 dt ov path")
    case (Inl e0)
    then have "e = e0" using Cons.prems unfolding a by simp
    then show ?thesis using Inl a by auto
  next
    case (Inr c0)
    then have "solve_inputs book im ins dt ov path = Inl e"
      using Cons.prems unfolding a by (auto split: sum.splits)
    from Cons.IH [OF this] show ?thesis by auto
  qed
qed

lemma no_revisit:
  "solve book im it rate dt ov path = Inr node \<Longrightarrow> (consumes book)\<^sup>*\<^sup>* it x \<Longrightarrow> x \<notin> set path"
proof (induction node arbitrary: it rate path rule: PlanNode.induct)
  case (PlanNode x1 x2 x3 x4 x5 x6 x7 x8 x9 x10 x11 x12 cs)
  let ?node = "PlanNode x1 x2 x3 x4 x5 x6 x7 x8 x9 x10 x11 x12 cs"
  have np: "it \<notin> set path"
    using PlanNode.prems(1) by (auto simp: solve.simps split: if_splits)
  from PlanNode.prems(2) show ?case
  proof (cases rule: converse_rtranclpE)
    case base
    then show ?thesis using np by simp
  next
    case (step y)
    from step(1) obtain r where r: "get_active_recipe book it = Some r"
      and y: "y \<in> fst ` set (r_inputs r)"
      by (auto simp: consumes_def split: option.splits)
    from solve_recipe_fields [OF PlanNode.prems(1) r] obtain out_amt where
      ins: "inputs ?node = map (\<lambda>(in_item, in_amt). (in_item, rate / out_amt * in_amt)) (r_inputs r)"
      and si: "solve_inputs book im (inputs ?node) dt ov (path @ [it]) = Inr (children ?node)"
      by blast
    from y obtain amt where "(y, amt) \<in> set (r_inputs r)" by auto
    then have "(y, rate / out_amt * amt) \<in> set (inputs ?node)"
      unfolding ins by force
    from solve_inputs_covers [OF si this] obtain c where
      c: "c \<in> set cs" and sc: "solve book im y (rate / out_amt * amt) dt ov (path @ [it]) = Inr c"
      by auto
    from PlanNode.IH [OF c sc step(2)] show ?thesis by simp
  qed
qed

lemma cycle_never_resolves:
  assumes "(consumes book)\<^sup>+\<^sup>+ it it"
  shows "\<exists>e. solve book im it rate dt ov path = Inl e"
proof (cases "solve book im it rate dt ov path")
  case (Inl e)
  then show ?thesis by blast
next
  case (Inr node)
  from assms obtain y where y: "consumes book it y" and yi: "(consumes book)\<^sup>*\<^sup>* y it"
    by (meson tranclpD)
  from y obtain r where r: "get_active_recipe book it = Some r"
    and yr: "y \<in> fst ` set (r_inputs r)"
    by (auto simp: consumes_def split: option.splits)
  from solve_recipe_fields [OF Inr r] obtain out_amt where
    ins: "inputs node = map (\<lambda>(in_item, in_amt). (in_item, rate / out_amt * in_amt)) (r_inputs r)"
    and si: "solve_inputs book im (inputs node) dt ov (path @ [it]) = Inr (children node)"
    by blast
  from yr obtain amt where "(y, amt) \<in> set (r_inputs r)" by auto
  then have "(y, rate / out_amt * amt) \<in> set (inputs node)"
    unfolding ins by force
  from solve_inputs_covers [OF si this] obtain c where
    sc: "solve book im y (rate / out_amt * amt) dt ov (path @ [it]) = Inr c"
    by auto
  from no_revisit [OF sc yi] show ?thesis by simp
qed

lemma node_timing_error:
  "node_timing r tier = Inl e \<Longrightarrow> e = KeyError tier \<and> VOLTAGE_BY_TIER tier = None"
  by (auto simp: node_timing_def compute_overclock_def Let_def split: sum.splits option.splits if_splits)

lemma primary_output_amount_error:
  "primary_output_amount r it = Inl e \<Longrightarrow> e = NoOutputs (r_id r)"
  by (auto simp: primary_output_amount_def split: option.splits list.splits)

lemma solve_error_sources:
  assumes "solve book im it rate dt ov path = Inl e"
  shows "(it \<in> set path \<and> e = CycleDetected (path @ [it]))
       \<or> (it \<notin> set path \<and> get_active_recipe book it = None
            \<and> e = ValidationError dt \<and> dt \<notin> set Tier_literals)
       \<or> (it \<notin> set path
            \<and> (\<exists>r. get_active_recipe book it = Some r
                  \<and> (e = NoOutputs (r_id r) \<and> primary_output_amount r it = Inl e
                     \<or> e = KeyError (tier_for_node r dt ov it)
                          \<and> VOLTAGE_BY_TIER (tier_for_node r dt ov it) = None
                     \<or> e = ZeroDivisionError \<and> primary_output_amount r it = Inr 0
                     \<or> e = ValidationError (tier_for_node r dt ov it)
                          \<and> tier_for_node r dt ov it \<notin> set Tier_literals
                     \<or> (\<exists>q. primary_output_amount r it = Inr q \<and> q \<noteq> 0
                            \<and> solve_inputs book im
                                 (map (\<lambda>(in_item, in_amt). (in_item, rate / q * in_amt)) (r_inputs r))
                                 dt ov (path @ [it]) = Inl e))))"
proof (cases "it \<in> set path")
  case True
  then show ?thesis using assms by (simp add: solve_cycle)
next
  case np: False
  show ?thesis
  proof (cases "get_active_recipe book it")
    case None
    then show ?thesis
      using assms np by (auto simp: solve_raw PlanNode_init_def split: if_splits)
  next
    case (Some r)
    show ?thesis
      using assms np Some unfolding solve_recipe [OF np Some]
      by (auto simp: PlanNode_init_def split: sum.splits prod.splits if_splits
            dest: node_timing_error primary_output_amount_error)
  qed
qed

lemma cycle_error_shape:
  "solve book im it rate dt ov path = Inl (CycleDetected p)
   \<Longrightarrow> \<exists>q. p = path @ it # q \<and> last (it # q) \<in> set (path @ butlast (it # q))
          \<and> is_chain book (it # q)"
proof (induction "unvisited book path" arbitrary: it rate path rule: less_induct)
  case less
  from solve_error_sources [OF less.prems] consider
    (cyc) "it \<in> set path" "p = path @ [it]"
    | (sub) r q where "it \<notin> set path" "get_active_recipe book it = Some r"
        "solve_inputs book im
           (map (\<lambda>(in_item, in_amt). (in_item, rate / q * in_amt)) (r_inputs r))
           dt ov (path @ [it]) = Inl (CycleDetected p)"
    by auto
  then show ?case
  proof cases
    case cyc
    then show ?thesis by (intro exI [of _ "[]"]) simp
  next
    case sub
    from solve_inputs_first_error [OF sub(3)] obtain i rt where
      i: "(i, rt) \<in> set (map (\<lambda>(in_item, in_amt). (in_item, rate / q * in_amt)) (r_inputs r))"
      and si: "solve book im i rt dt ov (path @ [it]) = Inl (CycleDetected p)"
      by blast
    from i have ir: "i \<in> fst ` set (r_inputs r)" by force
    then have c: "consumes book it i" using sub(2) by (simp add: consumes_def)
    have "unvisited book (path @ [it]) < unvisited book path"
      using sub(1,2) by (rule unvisited_extend)
    from less.hyps [OF this si] obtain q' where
      q': "p = (path @ [it]) @ i # q'"
      "last (i # q') \<in> set ((path @ [it]) @ butlast (i # q'))"
      "is_chain book (i # q')"
      by blast
    show ?thesis
      using q' c by (intro exI [of _ "i # q'"]) auto
  qed
qed

text \<open>
  A catalog in which nothing but a cycle can make \<open>_solve\<close> fail: the default tier is a
  tier literal, and every active recipe has a non-zero quantity for the item it is
  active for (or a non-zero first output) and a tier that is a tier literal.
\<close>

definition well_formed :: "RecipeBook \<Rightarrow> string \<Rightarrow> (string \<rightharpoonup> string) option \<Rightarrow> bool" where
  "well_formed book dt ov \<longleftrightarrow>
     dt \<in> set Tier_literals
     \<and> (\<forall>a r. get_active_recipe book a = Some r
            \<longrightarrow> (\<exists>q. primary_output_amount r a = Inr q \<and> q \<noteq> 0)
                \<and> tier_for_node r dt ov a \<in> set Tier_literals)"

lemma well_formed_errors_are_cycles:
  assumes "well_formed book dt ov"
  shows "solve book im it rate dt ov path = Inl e \<Longrightarrow> \<exists>p. e = CycleDetected p"
proof (induction "unvisited book path" arbitrary: it rate path rule: less_induct)
  case less
  have wf: "dt \<in> set Tier_literals"
    "\<And>a r. get_active_recipe book a = Some r
       \<Longrightarrow> (\<exists>q. primary_output_amount r a = Inr q \<and> q \<noteq> 0)
          \<and> tier_for_node r dt ov a \<in> set Tier_literals"
    using assms by (auto simp: well_formed_def)
  have "e = CycleDetected (path @ [it])
      \<or> (\<exists>r q. it \<notin> set path \<and> get_active_recipe book it = Some r
             \<and> solve_inputs book im
                  (map (\<lambda>(in_item, in_amt). (in_item, rate / q * in_amt)) (r_inputs r))
                  dt ov (path @ [it]) = Inl e)"
    using solve_error_sources [OF less.prems]
  proof (elim disjE conjE exE)
    assume "e = CycleDetected (path @ [it])"
    then show ?thesis by simp
  next
    assume "dt \<notin> set Tier_literals"
    then show ?thesis using wf(1) by simp
  next
    fix r assume "get_active_recipe book it = Some r" "primary_output_amount r it = Inl e"
    then show ?thesis using wf(2) by fastforce
  next
    fix r assume "get_active_recipe book it = Some r"
      "VOLTAGE_BY_TIER (tier_for_node r dt ov it) = None"
    then show ?thesis using wf(2) [of it r] by (simp add: VOLTAGE_BY_TIER_literals)
  next
    fix r assume "get_active_recipe book it = Some r" "primary_output_amount r it = Inr 0"
    then show ?thesis using wf(2) [of it r] by simp
  next
    fix r assume "get_active_recipe book it = Some r"
      "tier_for_node r dt ov it \<notin> set Tier_literals"
    then show ?thesis using wf(2) [of it r] by simp
  next
    fix r q assume "it \<notin> set path" "get_active_recipe book it = Some r"
      "solve_inputs book im
         (map (\<lambda>(in_item, in_amt). (in_item, rate / q * in_amt)) (r_inputs r))
         dt ov (path @ [it]) = Inl e"
    then show ?thesis by blast
  qed
  then consider
    (cyc) "e = CycleDetected (path @ [it])"
    | (sub) r q where "it \<notin> set path" "get_active_recipe book it = Some r"
        "solve_inputs book im
           (map (\<lambda>(in_item, in_amt). (in_item, rate / q * in_amt)) (r_inputs r))
           dt ov (path @ [it]) = Inl e"
    by blast
  then show ?case
  proof cases
    case cyc
    then show ?thesis by blast
  next
    case sub
    from solve_inputs_first_error [OF sub(3)] obtain i rt where
      si: "solve book im i rt dt ov (path @ [it]) = Inl e"
      by blast
    have "unvisited book (path @ [it]) < unvisited book path"
      using sub(1,2) by (rule unvisited_extend)
    from less.hyps [OF this si] show ?thesis .
  qed
qed

lemma is_chain_suffix: "is_chain book (xs @ ys) \<Longrightarrow> is_chain book ys"
proof (induction xs)
  case Nil
  then show ?case by simp
next
  case (Cons a xs)
  then show ?case by (cases "xs @ ys") auto
qed

lemma is_chain_reach:
  "is_chain book (a # xs) \<Longrightarrow> b \<in> set xs \<Longrightarrow> (consumes book)\<^sup>+\<^sup>+ a b"
proof (induction xs arbitrary: a)
  case Nil
  then show ?case by simp
next
  case (Cons x xs)
  from Cons.prems(1) have ax: "consumes book a x" and ch: "is_chain book (x # xs)" by simp_all
  show ?case
  proof (cases "b = x")
    case True
    then show ?thesis using ax by blast
  next
    case False
    then have "b \<in> set xs" using Cons.prems(2) by simp
    from Cons.IH [OF ch this] ax show ?thesis by (meson tranclp_into_tranclp2)
  qed
qed

lemma chain_repeat_is_cycle:
  assumes "is_chain book xs" and "xs \<noteq> []" and "last xs \<in> set (butlast xs)"
  shows "(consumes book)\<^sup>+\<^sup>+ (last xs) (last xs)"
proof -
  from assms(3) obtain ys zs where b: "butlast xs = ys @ last xs # zs"
    by (meson split_list)
  have "xs = butlast xs @ [last xs]" using assms(2) by simp
  then have x: "xs = ys @ (last xs # zs @ [last xs])" using b by simp
  have "is_chain book (last xs # zs @ [last xs])"
    using assms(1) is_chain_suffix x by metis
  then show ?thesis by (rule is_chain_reach) simp
qed
lemma cycle_error_has_cycle:
  assumes "solve book im it rate dt ov [] = Inl (CycleDetected p)"
  shows "\<exists>z. z \<in> set p \<and> (consumes book)\<^sup>+\<^sup>+ z z"
proof -
  from cycle_error_shape [OF assms] obtain q where
    q: "p = it # q" "last (it # q) \<in> set (butlast (it # q))" "is_chain book (it # q)"
    by auto
  have "(consumes book)\<^sup>+\<^sup>+ (last (it # q)) (last (it # q))"
    using q(3) _ q(2) by (rule chain_repeat_is_cycle) simp
  moreover have "last (it # q) \<in> set p" unfolding q(1) by (meson last_in_set list.discI)
  ultimately show ?thesis by blast
qed
definition book_cycle :: RecipeBook where
  "book_cycle =
     \<lparr>recipes = [recipe_plain ''ra'' ''m1'' [(''b'', 1)] ''a'',
                 recipe_plain ''rb'' ''m2'' [(''a'', 1)] ''b''],
      active_by_output = [(''a'', ''ra''), (''b'', ''rb'')]\<rparr>"

lemma book_cycle_active:
  "get_active_recipe book_cycle u = Some r
   \<Longrightarrow> (u = ''a'' \<and> r = recipe_plain ''ra'' ''m1'' [(''b'', 1)] ''a'')
     \<or> (u = ''b'' \<and> r = recipe_plain ''rb'' ''m2'' [(''a'', 1)] ''b'')"
  by (simp add: book_cycle_def get_active_recipe_def recipe_plain_def split: if_splits)

lemma recipe_plain_ok:
  "primary_output_amount (recipe_plain rid m ins out) out = Inr 1"
  "tier_for_node (recipe_plain rid m ins out) ''LV'' None u = ''LV''"
  by (simp_all add: primary_output_amount_def tier_for_node_def recipe_plain_def)

lemma book_cycle_well_formed: "well_formed book_cycle ''LV'' None"
  unfolding well_formed_def
proof (intro conjI allI impI)
  show "''LV'' \<in> set Tier_literals" by (rule LV_literal)
next
  fix u r assume "get_active_recipe book_cycle u = Some r"
  from book_cycle_active [OF this]
  show "\<exists>q. primary_output_amount r u = Inr q \<and> q \<noteq> 0"
    using recipe_plain_ok(1) by fastforce
next
  fix u r assume "get_active_recipe book_cycle u = Some r"
  from book_cycle_active [OF this]
  show "tier_for_node r ''LV'' None u \<in> set Tier_literals"
    using recipe_plain_ok(2) LV_literal by auto
qed


lemma book_cycle_consumes: "consumes book_cycle ''a'' ''b''" "consumes book_cycle ''b'' ''a''"
  by (simp_all add: consumes_def book_cycle_def get_active_recipe_def recipe_plain_def)

lemma solve_book_cycle:
  "solve book_cycle Map.empty ''a'' 1 ''LV'' None [] = Inl (CycleDetected [''a'', ''b'', ''a''])"
  by (simp add: solve.simps book_cycle_def recipe_plain_def get_active_recipe_def
        primary_output_amount_def tier_for_node_def Let_def)

text \<open>
  Cycles are reported. In \<open>src/core/plan.py\<close>, for a well-formed catalog in which the active recipe of an
  item consumes that item, directly or transitively, resolving the item from the empty
  path fails with the cycle error, and the error names the path: a chain that starts at
  the item and whose last item already stands earlier in it.
\<close>

theorem cycle_is_reported_with_its_path:
  assumes "well_formed book dt ov" and "(consumes book)\<^sup>+\<^sup>+ it it"
  shows "\<exists>q. solve book im it rate dt ov [] = Inl (CycleDetected (it # q))
           \<and> last (it # q) \<in> set (butlast (it # q)) \<and> is_chain book (it # q)"
proof -
  from cycle_never_resolves [OF assms(2)] obtain e where
    e: "solve book im it rate dt ov [] = Inl e" by blast
  from well_formed_errors_are_cycles [OF assms(1) e] obtain p where p: "e = CycleDetected p"
    by blast
  from cycle_error_shape [OF e [unfolded p]] show ?thesis
    using e p by auto
qed

theorem cycle_is_reported_with_its_path_witness:
  "well_formed book_cycle ''LV'' None \<and> (consumes book_cycle)\<^sup>+\<^sup>+ ''a'' ''a''
   \<and> solve book_cycle Map.empty ''a'' 1 ''LV'' None [] = Inl (CycleDetected [''a'', ''b'', ''a''])
   \<and> (\<exists>q. solve book_cycle Map.empty ''a'' 1 ''LV'' None [] = Inl (CycleDetected (''a'' # q))
          \<and> last (''a'' # q) \<in> set (butlast (''a'' # q)) \<and> is_chain book_cycle (''a'' # q))"
proof -
  have c: "(consumes book_cycle)\<^sup>+\<^sup>+ ''a'' ''a''"
    using book_cycle_consumes by (rule tranclp.intros(2) [OF tranclp.intros(1)])
  note th = cycle_is_reported_with_its_path [OF book_cycle_well_formed c, of Map.empty 1]
  show ?thesis
    by (intro conjI book_cycle_well_formed c solve_book_cycle th)
qed

definition rank_siblings :: "string \<Rightarrow> nat" where
  "rank_siblings s = (if s = ''x'' then 2 else if s = ''a'' \<or> s = ''b'' then 1 else 0)"

lemma book_siblings_active:
  "get_active_recipe book_siblings u = Some r
   \<Longrightarrow> (u = ''x'' \<and> r = recipe_plain ''rx'' ''m1'' [(''a'', 1), (''b'', 1)] ''x'')
     \<or> (u = ''a'' \<and> r = recipe_plain ''ra'' ''m2'' [(''ore'', 1)] ''a'')
     \<or> (u = ''b'' \<and> r = recipe_plain ''rb'' ''m2'' [(''ore'', 1)] ''b'')"
  by (simp add: book_siblings_def get_active_recipe_def recipe_plain_def split: if_splits)


lemma consumes_siblings_rank:
  assumes "consumes book_siblings u v"
  shows "rank_siblings v < rank_siblings u"
proof -
  from assms obtain r where r: "get_active_recipe book_siblings u = Some r"
    and v: "v \<in> fst ` set (r_inputs r)"
    by (auto simp: consumes_def split: option.splits)
  from book_siblings_active [OF r] v show ?thesis
    by (auto simp: recipe_plain_def rank_siblings_def)
qed

lemma book_siblings_acyclic: "\<forall>z. \<not> (consumes book_siblings)\<^sup>+\<^sup>+ z z"
proof -
  have "(consumes book_siblings)\<^sup>+\<^sup>+ u v \<Longrightarrow> rank_siblings v < rank_siblings u" for u v
  proof (induction rule: tranclp_induct)
    case (base y)
    then show ?case by (rule consumes_siblings_rank)
  next
    case (step y z)
    from consumes_siblings_rank [OF step.hyps(2)] step.IH show ?case by simp
  qed
  then show ?thesis by blast
qed

lemma book_siblings_well_formed: "well_formed book_siblings ''LV'' None"
  unfolding well_formed_def
proof (intro conjI allI impI)
  show "''LV'' \<in> set Tier_literals" by (rule LV_literal)
next
  fix u r assume "get_active_recipe book_siblings u = Some r"
  from book_siblings_active [OF this]
  show "\<exists>q. primary_output_amount r u = Inr q \<and> q \<noteq> 0"
    using recipe_plain_ok(1) by fastforce
next
  fix u r assume "get_active_recipe book_siblings u = Some r"
  from book_siblings_active [OF this]
  show "tier_for_node r ''LV'' None u \<in> set Tier_literals"
    using recipe_plain_ok(2) LV_literal by auto
qed

text \<open>
  No cycle, no cycle error. In \<open>src/core/plan.py\<close>, for a catalog in which no item consumes itself, directly
  or transitively, resolving an item from the empty path never fails with a cycle error,
  however often an item occurs in sibling branches; and when the catalog is well formed
  the resolution returns a plan.
\<close>

theorem acyclic_catalog_no_cycle_error:
  assumes "\<forall>z. \<not> (consumes book)\<^sup>+\<^sup>+ z z"
  shows "(\<forall>p. solve book im it rate dt ov [] \<noteq> Inl (CycleDetected p))
       \<and> (well_formed book dt ov \<longrightarrow> (\<exists>node. solve book im it rate dt ov [] = Inr node))"
proof (intro conjI allI impI)
  fix p show "solve book im it rate dt ov [] \<noteq> Inl (CycleDetected p)"
    using cycle_error_has_cycle assms by blast
next
  assume wf: "well_formed book dt ov"
  show "\<exists>node. solve book im it rate dt ov [] = Inr node"
  proof (cases "solve book im it rate dt ov []")
    case (Inr node)
    then show ?thesis by blast
  next
    case (Inl e)
    from well_formed_errors_are_cycles [OF wf Inl] obtain p where "e = CycleDetected p"
      by blast
    with Inl cycle_error_has_cycle assms show ?thesis by blast
  qed
qed

theorem acyclic_catalog_no_cycle_error_witness:
  "(\<forall>z. \<not> (consumes book_siblings)\<^sup>+\<^sup>+ z z) \<and> well_formed book_siblings ''LV'' None
   \<and> solve book_siblings Map.empty ''x'' 1 ''LV'' None [] = Inr plan_siblings
   \<and> (\<exists>node. solve book_siblings Map.empty ''x'' 1 ''LV'' None [] = Inr node)"
proof -
  note th = acyclic_catalog_no_cycle_error [OF book_siblings_acyclic, of Map.empty "''x''" 1 "''LV''" None]
  from th book_siblings_well_formed
  have "\<exists>node. solve book_siblings Map.empty ''x'' 1 ''LV'' None [] = Inr node" by blast
  then show ?thesis
    by (intro conjI book_siblings_acyclic book_siblings_well_formed solve_siblings)
qed

end
